theory Spec2Isabelle
  imports Complex_Main
begin

section \<open>The Pong component of \<^verbatim>\<open>src/pong.tsx\<close>\<close>

text \<open>
  The component keeps its session flags and the score in React state, and everything the
  simulation moves (ball, paddles, held keys, particles) in variables local to one run of
  the game-loop effect. Both layers are modelled: the loop-local variables as the record
  \<open>loop\<close> with the frame function \<open>update\<close>, the React state as the record
  \<open>component\<close>, and a session as a component together with the variables of the effect
  run that is currently active, if any.

  JavaScript numbers are IEEE-754 doubles. The model keeps them as reals and writes the
  rounding out wherever the source stores a sum in the ball or in a paddle, with
  \<open>double_of\<close>; a literal that is not a double (\<open>0.3\<close>, \<open>0.4\<close>) stands for the double
  nearest to it. The numbers \<open>Math.random()\<close> returns during one frame are a parameter
  \<open>rnd\<close> of the frame, \<open>rnd k\<close> being the result of the \<open>k\<close>-th call.
\<close>

subsection \<open>Numbers\<close>

text \<open>Rounding to the nearest integer, a tie to the even one.\<close>

definition round_even :: "real \<Rightarrow> int" where
  "round_even q =
     (let n = \<lfloor>q\<rfloor>; r = q - of_int n
      in if r < 1 / 2 then n
         else if 1 / 2 < r then n + 1
         else if even n then n else n + 1)"

text \<open>
  \<open>double_of\<close> rounds a real to the nearest double, ties to even: 53 significant bits,
  the last of them worth \<open>2 powi (\<lfloor>log 2 \<bar>x\<bar>\<rfloor> - 52)\<close>. The exponent is not bounded: no
  overflow and no subnormal numbers, which the positions on an 800 by 600 canvas are far
  from.
\<close>

definition double_of :: "real \<Rightarrow> real" where
  "double_of x =
     (if x = 0 then 0
      else let u = 2 powi (\<lfloor>log 2 \<bar>x\<bar>\<rfloor> - 52)
           in of_int (round_even (x / u)) * u)"

subsection \<open>Constants of the game loop\<close>

definition canvas_width :: real where
  "canvas_width = 800"

definition canvas_height :: real where
  "canvas_height = 600"

definition ball_radius :: real where
  "ball_radius = 8"

definition paddleHeight :: real where
  "paddleHeight = 100"

definition paddleWidth :: real where
  "paddleWidth = 10"

text \<open>The literal \<open>0.4\<close> of \<open>paddle1.speed\<close> and \<open>paddle2.speed\<close>.\<close>

definition paddle_speed :: real where
  "paddle_speed = double_of 0.4"

subsection \<open>Loop-local state\<close>

record particle =
  p_x :: real
  p_y :: real
  p_dx :: real
  p_dy :: real
  p_life :: real

record loop =
  particles :: "particle list"
  ball_x :: real
  ball_y :: real
  ball_dx :: real
  ball_dy :: real
  paddle1_y :: real
  paddle2_y :: real
  keys_w :: bool
  keys_s :: bool
  keys_ArrowUp :: bool
  keys_ArrowDown :: bool

text \<open>The values the effect body gives its variables (lines 155 to 184).\<close>

definition init_loop :: loop where
  "init_loop =
     \<lparr>particles = [],
      ball_x = canvas_width / 2, ball_y = canvas_height / 2,
      ball_dx = double_of 0.3, ball_dy = double_of 0.3,
      paddle1_y = canvas_height / 2 - paddleHeight / 2,
      paddle2_y = canvas_height / 2 - paddleHeight / 2,
      keys_w = False, keys_s = False, keys_ArrowUp = False, keys_ArrowDown = False\<rparr>"

subsection \<open>What a frame asks of the outside\<close>

datatype sound = WallHitSound | PaddleHitSound | ScoreSound

datatype player = Player1 | Player2

text \<open>
  \<open>PlaySound\<close> is a call of \<open>playSound\<close>, \<open>ScorePoint p\<close> the call of \<open>setScore\<close>
  that adds one to the counter of \<open>p\<close>.
\<close>

datatype request = PlaySound sound | ScorePoint player

subsection \<open>Particles\<close>

text \<open>
  \<open>createParticles\<close> pushes \<open>count\<close> particles; each draws two random numbers, the
  first for \<open>dx\<close>. The function returns the pushed particles in order.
\<close>

fun createParticles :: "real \<Rightarrow> real \<Rightarrow> nat \<Rightarrow> (nat \<Rightarrow> real) \<Rightarrow> particle list" where
  "createParticles x y 0 rnd = []"
| "createParticles x y (Suc n) rnd =
     \<lparr>p_x = x, p_y = y,
      p_dx = (rnd 0 - 0.5) * 0.2,
      p_dy = (rnd 1 - 0.5) * 0.2,
      p_life = 1\<rparr> # createParticles x y n (\<lambda>k. rnd (k + 2))"

text \<open>
  The body of the callback \<open>updateParticles\<close> passes to \<open>filter\<close>, before its test.
  The arithmetic of the particles is kept exact.
\<close>

definition fade :: "particle \<Rightarrow> particle" where
  "fade p = p\<lparr>p_x := p_x p + p_dx p, p_y := p_y p + p_dy p, p_life := p_life p - 0.005\<rparr>"

fun updateParticles :: "particle list \<Rightarrow> particle list" where
  "updateParticles [] = []"
| "updateParticles (p # ps) =
     (if p_life (fade p) > 0 then fade p # updateParticles ps else updateParticles ps)"

subsection \<open>The frame function\<close>

text \<open>
  Lines 284 to 287: the four guarded paddle moves, in the order of the source, each sum
  rounded as it is stored. The bound \<open>canvas.height - paddleHeight\<close> is 500 exactly.
\<close>

definition move_paddles :: "loop \<Rightarrow> loop" where
  "move_paddles l =
     (let l1 = (if keys_w l \<and> paddle1_y l > 0
                then l\<lparr>paddle1_y := double_of (paddle1_y l - paddle_speed)\<rparr> else l);
          l2 = (if keys_s l1 \<and> paddle1_y l1 < canvas_height - paddleHeight
                then l1\<lparr>paddle1_y := double_of (paddle1_y l1 + paddle_speed)\<rparr> else l1);
          l3 = (if keys_ArrowUp l2 \<and> paddle2_y l2 > 0
                then l2\<lparr>paddle2_y := double_of (paddle2_y l2 - paddle_speed)\<rparr> else l2)
      in if keys_ArrowDown l3 \<and> paddle2_y l3 < canvas_height - paddleHeight
         then l3\<lparr>paddle2_y := double_of (paddle2_y l3 + paddle_speed)\<rparr> else l3)"

text \<open>Lines 290 and 291: both sums are rounded as they are stored.\<close>

definition move_ball :: "loop \<Rightarrow> loop" where
  "move_ball l =
     l\<lparr>ball_x := double_of (ball_x l + ball_dx l), ball_y := double_of (ball_y l + ball_dy l)\<rparr>"

text \<open>
  The tests of lines 294, 302 to 303, 311 and 317. A sum of a position and the constant
  \<open>ball.radius\<close> is compared with a constant: it is written without rounding, since
  for a position that is a double the rounded sum passes the test exactly when the sum
  does (\<open>test_bottom\<close>, \<open>test_top\<close>, \<open>test_left_paddle\<close>, \<open>test_right_paddle\<close>,
  \<open>test_out_left\<close>, \<open>test_out_right\<close> below). The sum \<open>paddle.y + paddleHeight\<close> is
  compared with a position and is rounded.
\<close>

definition hits_wall :: "loop \<Rightarrow> bool" where
  "hits_wall l \<longleftrightarrow>
     ball_y l + ball_radius > canvas_height \<or> ball_y l - ball_radius < 0"

definition hits_paddle :: "loop \<Rightarrow> bool" where
  "hits_paddle l \<longleftrightarrow>
     (ball_x l - ball_radius < paddleWidth \<and> ball_y l > paddle1_y l
        \<and> ball_y l < double_of (paddle1_y l + paddleHeight)) \<or>
     (ball_x l + ball_radius > canvas_width - paddleWidth \<and> ball_y l > paddle2_y l
        \<and> ball_y l < double_of (paddle2_y l + paddleHeight))"

definition out_left :: "loop \<Rightarrow> bool" where
  "out_left l \<longleftrightarrow> ball_x l + ball_radius < 0"

definition out_right :: "loop \<Rightarrow> bool" where
  "out_right l \<longleftrightarrow> ball_x l - ball_radius > canvas_width"

text \<open>Lines 294 to 298. A hit draws the twenty random numbers of its ten particles.\<close>

definition wall_collision :: "(nat \<Rightarrow> real) \<Rightarrow> loop \<Rightarrow> loop \<times> request list" where
  "wall_collision rnd l =
     (if hits_wall l
      then (l\<lparr>ball_dy := - ball_dy l,
              particles := particles l @ createParticles (ball_x l) (ball_y l) 10 rnd\<rparr>,
            [PlaySound WallHitSound])
      else (l, []))"

text \<open>Lines 301 to 308.\<close>

definition paddle_collision :: "(nat \<Rightarrow> real) \<Rightarrow> loop \<Rightarrow> loop \<times> request list" where
  "paddle_collision rnd l =
     (if hits_paddle l
      then (l\<lparr>ball_dx := - ball_dx l,
              particles := particles l @ createParticles (ball_x l) (ball_y l) 15 rnd\<rparr>,
            [PlaySound PaddleHitSound])
      else (l, []))"

text \<open>Lines 311 to 323.\<close>

definition score_points :: "loop \<Rightarrow> loop \<times> request list" where
  "score_points l =
     (if out_left l
      then (l\<lparr>ball_x := canvas_width / 2, ball_y := canvas_height / 2, ball_dx := double_of 0.3\<rparr>,
            [ScorePoint Player2, PlaySound ScoreSound])
      else if out_right l
      then (l\<lparr>ball_x := canvas_width / 2, ball_y := canvas_height / 2, ball_dx := - double_of 0.3\<rparr>,
            [ScorePoint Player1, PlaySound ScoreSound])
      else (l, []))"

text \<open>
  \<open>update\<close> (lines 282 to 327). The paddle burst draws its random numbers after the
  wall burst's, when there was one.
\<close>

definition update :: "(nat \<Rightarrow> real) \<Rightarrow> loop \<Rightarrow> loop \<times> request list" where
  "update rnd l =
     (let l1 = move_ball (move_paddles l);
          (l2, r2) = wall_collision rnd l1;
          (l3, r3) = paddle_collision (if hits_wall l1 then (\<lambda>k. rnd (k + 20)) else rnd) l2;
          (l4, r4) = score_points l3
      in (l4\<lparr>particles := updateParticles (particles l4)\<rparr>, r2 @ r3 @ r4))"

subsection \<open>Key handlers of the effect\<close>

text \<open>
  \<open>keys[e.key] = b\<close> for a key of the \<open>keys\<close> object; any other key leaves the
  object as it is (lines 193 to 195 and 199 to 201).
\<close>

definition set_key :: "string \<Rightarrow> bool \<Rightarrow> loop \<Rightarrow> loop" where
  "set_key k b l =
     (if k = ''w'' then l\<lparr>keys_w := b\<rparr>
      else if k = ''s'' then l\<lparr>keys_s := b\<rparr>
      else if k = ''ArrowUp'' then l\<lparr>keys_ArrowUp := b\<rparr>
      else if k = ''ArrowDown'' then l\<lparr>keys_ArrowDown := b\<rparr>
      else l)"

subsection \<open>React state of the component\<close>

record game_settings =
  theme :: string
  sfxVolume :: nat
  musicVolume :: nat
  sfxEnabled :: bool
  musicEnabled :: bool

record component =
  gameStarted :: bool
  gamePaused :: bool
  showControls :: bool
  showSettings :: bool
  showPauseMenu :: bool
  score_player1 :: nat
  score_player2 :: nat
  winner :: "string option"
  settings :: game_settings

text \<open>The initial values of the \<open>useState\<close> calls (lines 62 to 77).\<close>

definition init_component :: component where
  "init_component =
     \<lparr>gameStarted = False, gamePaused = False, showControls = False,
      showSettings = False, showPauseMenu = False,
      score_player1 = 0, score_player2 = 0, winner = None,
      settings = \<lparr>theme = ''classic'', sfxVolume = 50, musicVolume = 30,
                   sfxEnabled = True, musicEnabled = True\<rparr>\<rparr>"

text \<open>The names of \<open>THEMES\<close> (lines 32 to 58).\<close>

definition THEMES :: "string list" where
  "THEMES = [''classic'', ''neon'', ''retro'', ''matrix'', ''ocean'']"

subsection \<open>Click handlers\<close>

definition handleStart :: "component \<Rightarrow> component" where
  "handleStart c =
     (if \<not> gameStarted c \<and> \<not> showControls c
      then c\<lparr>showControls := True\<rparr>
      else c\<lparr>gameStarted := True, showControls := False,
             score_player1 := 0, score_player2 := 0, winner := None,
             gamePaused := False, showPauseMenu := False\<rparr>)"

definition handleResume :: "component \<Rightarrow> component" where
  "handleResume c = c\<lparr>gamePaused := False, showPauseMenu := False\<rparr>"

definition handleQuit :: "component \<Rightarrow> component" where
  "handleQuit c =
     c\<lparr>gameStarted := False, gamePaused := False, showPauseMenu := False,
       score_player1 := 0, score_player2 := 0, winner := None\<rparr>"

text \<open>
  What reaches the component: key events, the animation frame the loop asked for, and
  clicks on the controls of the returned markup (lines 386 to 570).
\<close>

datatype input =
    KeyDown string
  | KeyUp string
  | AnimationFrame
  | ClickPlay
  | ClickPlayAgain
  | ClickPause
  | ClickResume
  | ClickSettings
  | ClickQuit
  | ClickCloseSettings
  | SetMusicVolume nat
  | SetSfxVolume nat
  | SetMusicEnabled bool
  | SetSfxEnabled bool
  | SetTheme string

text \<open>
  A control acts only when the markup renders it (and, for a slider, enables it);
  otherwise the click changes nothing. Key events and frames belong to the effect and
  are handled in \<open>step\<close>.
\<close>

fun click :: "input \<Rightarrow> component \<Rightarrow> component" where
  "click ClickPlay c =
     (if \<not> gameStarted c \<and> \<not> showSettings c then handleStart c else c)"
| "click ClickPlayAgain c =
     (if winner c \<noteq> None then handleStart c else c)"
| "click ClickPause c =
     (if gameStarted c \<and> \<not> showPauseMenu c then c\<lparr>showPauseMenu := True\<rparr> else c)"
| "click ClickResume c = (if showPauseMenu c then handleResume c else c)"
| "click ClickSettings c = (if showPauseMenu c then c\<lparr>showSettings := True\<rparr> else c)"
| "click ClickQuit c = (if showPauseMenu c then handleQuit c else c)"
| "click ClickCloseSettings c = (if showSettings c then c\<lparr>showSettings := False\<rparr> else c)"
| "click (SetMusicVolume v) c =
     (if showSettings c \<and> musicEnabled (settings c)
      then c\<lparr>settings := (settings c)\<lparr>musicVolume := v\<rparr>\<rparr> else c)"
| "click (SetSfxVolume v) c =
     (if showSettings c \<and> sfxEnabled (settings c)
      then c\<lparr>settings := (settings c)\<lparr>sfxVolume := v\<rparr>\<rparr> else c)"
| "click (SetMusicEnabled b) c =
     (if showSettings c then c\<lparr>settings := (settings c)\<lparr>musicEnabled := b\<rparr>\<rparr> else c)"
| "click (SetSfxEnabled b) c =
     (if showSettings c then c\<lparr>settings := (settings c)\<lparr>sfxEnabled := b\<rparr>\<rparr> else c)"
| "click (SetTheme t) c =
     (if showSettings c \<and> t \<in> set THEMES
      then c\<lparr>settings := (settings c)\<lparr>theme := t\<rparr>\<rparr> else c)"
| "click (KeyDown k) c = c"
| "click (KeyUp k) c = c"
| "click AnimationFrame c = c"

text \<open>
  Whether the click calls \<open>setScore\<close>: it then stores a new score object, which the
  winner check's dependency array compares by identity.
\<close>

definition handleStart_sets_score :: "component \<Rightarrow> bool" where
  "handleStart_sets_score c \<longleftrightarrow> (if \<not> gameStarted c \<and> \<not> showControls c then False else True)"

fun sets_score :: "input \<Rightarrow> component \<Rightarrow> bool" where
  "sets_score ClickPlay c =
     (if \<not> gameStarted c \<and> \<not> showSettings c then handleStart_sets_score c else False)"
| "sets_score ClickPlayAgain c =
     (if winner c \<noteq> None then handleStart_sets_score c else False)"
| "sets_score ClickQuit c = showPauseMenu c"
| "sets_score i c = False"

subsection \<open>Effects\<close>

text \<open>
  The dependency array of the game-loop effect (line 345). \<open>playSound\<close> is a
  \<open>useCallback\<close> over \<open>settings.sfxEnabled\<close>, so it changes exactly when that flag does.
\<close>

definition loop_deps :: "component \<Rightarrow> bool \<times> bool \<times> bool \<times> string \<times> nat \<times> nat" where
  "loop_deps c =
     (gameStarted c, gamePaused c, sfxEnabled (settings c), theme (settings c),
      score_player1 c, score_player2 c)"

text \<open>
  One run of the game-loop effect (lines 147 to 338), the canvas being mounted: it returns
  at once unless the game is started and not paused; otherwise it creates its variables
  and calls \<open>gameLoop\<close>, whose first \<open>update\<close> runs within the effect. The result is the
  state of the run that is now active, if any.
\<close>

definition game_loop_effect :: "(nat \<Rightarrow> real) \<Rightarrow> component \<Rightarrow> loop option" where
  "game_loop_effect rnd c =
     (if gameStarted c \<and> \<not> gamePaused c then Some (fst (update rnd init_loop)) else None)"

text \<open>The winner check (lines 348 to 358).\<close>

definition winner_effect :: "component \<Rightarrow> component" where
  "winner_effect c =
     (if score_player1 c \<ge> 15 then c\<lparr>winner := Some ''Player 1'', gameStarted := False\<rparr>
      else if score_player2 c \<ge> 15 then c\<lparr>winner := Some ''Player 2'', gameStarted := False\<rparr>
      else c)"

subsection \<open>Sessions\<close>

text \<open>
  A session is the React state and the variables of the active run of the game-loop
  effect; \<open>running = None\<close> when no run is active, so that no animation frame is
  pending and no key listener is registered.
\<close>

record session =
  comp :: component
  running :: "loop option"

definition init_session :: session where
  "init_session = \<lparr>comp = init_component, running = None\<rparr>"

text \<open>
  The render after a state change from \<open>old\<close> to \<open>new\<close>, \<open>lp\<close> being the active run
  before it. A changed dependency cleans the game-loop effect up (cancelling the pending
  frame and discarding the run's variables) and runs it again. The winner check runs
  when the score object or \<open>playSound\<close> changed; the state it sets is rendered in turn.
  The render and its effects are taken to complete before the next input.
\<close>

definition commit ::
  "(nat \<Rightarrow> real) \<Rightarrow> component \<Rightarrow> bool \<Rightarrow> component \<Rightarrow> loop option \<Rightarrow> session" where
  "commit rnd old score_set new lp =
     (let lp1 = (if loop_deps new = loop_deps old then lp else game_loop_effect rnd new);
          new2 = (if sfxEnabled (settings new) = sfxEnabled (settings old) \<and> \<not> score_set
                  then new else winner_effect new);
          lp2 = (if loop_deps new2 = loop_deps new then lp1 else game_loop_effect rnd new2)
      in \<lparr>comp = new2, running = lp2\<rparr>)"

text \<open>The \<open>setScore\<close> calls of a frame, applied to the React state.\<close>

fun apply_request :: "request \<Rightarrow> component \<Rightarrow> component" where
  "apply_request (ScorePoint Player1) c = c\<lparr>score_player1 := score_player1 c + 1\<rparr>"
| "apply_request (ScorePoint Player2) c = c\<lparr>score_player2 := score_player2 c + 1\<rparr>"
| "apply_request (PlaySound s) c = c"

fun is_score :: "request \<Rightarrow> bool" where
  "is_score (ScorePoint p) = True"
| "is_score (PlaySound s) = False"

text \<open>
  One input. A frame or a key event reaches the effect only while a run is active;
  Escape pauses (lines 188 to 192), any other key goes to \<open>keys\<close>.
\<close>

definition step :: "(nat \<Rightarrow> real) \<Rightarrow> input \<Rightarrow> session \<Rightarrow> session" where
  "step rnd i s =
     (case i of
        AnimationFrame \<Rightarrow>
          (case running s of
             None \<Rightarrow> s
           | Some l \<Rightarrow>
               (let (l', rs) = update rnd l
                in commit rnd (comp s) (list_ex is_score rs)
                     (fold apply_request rs (comp s)) (Some l')))
      | KeyDown k \<Rightarrow>
          (case running s of
             None \<Rightarrow> s
           | Some l \<Rightarrow>
               if k = ''Escape''
               then commit rnd (comp s) False
                      ((comp s)\<lparr>gamePaused := True, showPauseMenu := True\<rparr>) (Some l)
               else s\<lparr>running := Some (set_key k True l)\<rparr>)
      | KeyUp k \<Rightarrow>
          (case running s of
             None \<Rightarrow> s
           | Some l \<Rightarrow> s\<lparr>running := Some (set_key k False l)\<rparr>)
      | _ \<Rightarrow> commit rnd (comp s) (sets_score i (comp s)) (click i (comp s)) (running s))"

text \<open>A sequence of inputs, each with the random numbers drawn while it is handled.\<close>

fun run :: "((nat \<Rightarrow> real) \<times> input) list \<Rightarrow> session \<Rightarrow> session" where
  "run [] s = s"
| "run ((rnd, i) # is) s = run is (step rnd i s)"

subsection \<open>Sample values and invariants used in the properties\<close>

text \<open>A frame in which every \<open>Math.random()\<close> returns one half.\<close>

definition rnd_half :: "nat \<Rightarrow> real" where
  "rnd_half k = 1 / 2"

text \<open>
  The variables of a run of the effect once it has returned: the initial values after the
  one \<open>update\<close> of the first \<open>gameLoop\<close> call. The ball is at the doubles that print as
  400.3 and 300.3.
\<close>

definition started :: loop where
  "started =
     \<lparr>particles = [],
      ball_x = 7042152073579725 / 2 ^ 44, ball_y = 5282933469138125 / 2 ^ 44,
      ball_dx = double_of 0.3, ball_dy = double_of 0.3,
      paddle1_y = 250, paddle2_y = 250,
      keys_w = False, keys_s = False, keys_ArrowUp = False, keys_ArrowDown = False\<rparr>"

text \<open>
  A particle as \<open>createParticles\<close> pushes it, here where the ball of an untouched game
  meets the bottom wall (about 692.2, 592.2).
\<close>

definition spark :: particle where
  "spark =
     \<lparr>p_x = 6088655589972175 / 2 ^ 43, p_y = 5209046287751541 / 2 ^ 43,
      p_dx = 0, p_dy = 0, p_life = 1\<rparr>"

text \<open>A live particle: its life lies in \<open>(0, 1]\<close>.\<close>

definition alive :: "particle \<Rightarrow> bool" where
  "alive q \<longleftrightarrow> 0 < p_life q \<and> p_life q \<le> 1"

text \<open>
  The ball is within the top and bottom walls, or beyond one of them by at most one
  rounded step and already moving back.
\<close>

definition heading_back :: "loop \<Rightarrow> bool" where
  "heading_back l \<longleftrightarrow>
     \<bar>ball_dy l\<bar> = double_of 0.3 \<and>
     (if canvas_height < ball_y l + ball_radius
      then ball_dy l < 0 \<and>
           ball_y l \<le> double_of (canvas_height - ball_radius + double_of 0.3)
      else if ball_y l - ball_radius < 0
      then 0 < ball_dy l \<and> double_of (ball_radius - double_of 0.3) \<le> ball_y l
      else True)"


text \<open>
  The ball is at least \<open>n\<close> frames of flight from having left the surface: a frame
  moves it by \<open>0.3\<close> and a rounding error of at most \<open>2 powi (- 44)\<close>.
\<close>

definition room :: "nat \<Rightarrow> loop \<Rightarrow> bool" where
  "room n l \<longleftrightarrow>
     \<bar>ball_dx l\<bar> = double_of 0.3 \<and>
     \<bar>ball_x l - canvas_width / 2\<bar> + real n * (double_of 0.3 + 2 powi (- 44)) \<le>
       canvas_width / 2 + ball_radius"

text \<open>The inputs that only the running effect handles.\<close>

fun loop_input :: "input \<Rightarrow> bool" where
  "loop_input AnimationFrame = True"
| "loop_input (KeyDown k) = True"
| "loop_input (KeyUp k) = True"
| "loop_input i = False"

text \<open>
  A session as React keeps it between renders: a run of the effect is active exactly
  when the game is started and not paused, a started game has no winner and both scores
  below 15, and a paused game is a started one that shows the pause menu.
\<close>

definition well_formed :: "session \<Rightarrow> bool" where
  "well_formed s \<longleftrightarrow>
     (running s = None) = (if gameStarted (comp s) \<and> \<not> gamePaused (comp s) then False else True) \<and>
     (if gameStarted (comp s)
      then winner (comp s) = None \<and> score_player1 (comp s) < 15 \<and> score_player2 (comp s) < 15
      else True) \<and>
     (if gamePaused (comp s) then gameStarted (comp s) \<and> showPauseMenu (comp s) else True)"

text \<open>A game paused with Escape: started, paused, the pause menu shown, no run active.\<close>

definition suspended :: "session \<Rightarrow> bool" where
  "suspended s \<longleftrightarrow>
     gameStarted (comp s) \<and> gamePaused (comp s) \<and> showPauseMenu (comp s) \<and>
     winner (comp s) = None \<and> score_player1 (comp s) < 15 \<and> score_player2 (comp s) < 15 \<and>
     running s = None"

text \<open>A session in play, no point scored yet, whose run has the variables \<open>l\<close>.\<close>

definition playing_with :: "loop \<Rightarrow> session" where
  "playing_with l = \<lparr>comp = init_component\<lparr>gameStarted := True\<rparr>, running = Some l\<rparr>"

text \<open>
  A game nobody touches: start, then \<open>n\<close> frames, every random number one half;
  \<open>flight n\<close> are the variables of its run. Between 256 and 512 a rounded step of the
  ball is \<open>5277655813325 / 2 ^ 44\<close>, a little more than \<open>0.3\<close>; between 512 and 1024 it
  is \<open>2638827906662 / 2 ^ 43\<close>, a little less. The ball passes 512 horizontally in frame
  373 and vertically in frame 706, meets the bottom wall in frame 973, and comes back
  below 512 in frame 1241. The ten particles of the bounce live for 199 frames more.
\<close>

definition untouched :: "nat \<Rightarrow> ((nat \<Rightarrow> real) \<times> input) list" where
  "untouched n =
     [(rnd_half, ClickPlay), (rnd_half, ClickPlay)] @ replicate n (rnd_half, AnimationFrame)"

definition flight :: "nat \<Rightarrow> loop" where
  "flight n =
     started\<lparr>
       ball_x :=
         (if n < 373 then of_int (7042152073579725 + 5277655813325 * int n) / 2 ^ 44
          else of_int (4505358845974975 + 2638827906662 * (int n - 373)) / 2 ^ 43),
       ball_y :=
         (if n < 706 then of_int (5282933469138125 + 5277655813325 * int n) / 2 ^ 44
          else if n < 973
          then of_int (4504479236672787 + 2638827906662 * (int n - 706)) / 2 ^ 43
          else if n < 1241
          then of_int (5209046287751541 - 2638827906662 * (int n - 973)) / 2 ^ 43
          else of_int (9003680817532249 - 5277655813325 * (int n - 1241)) / 2 ^ 44),
       ball_dy := (if n < 973 then double_of 0.3 else - double_of 0.3),
       particles :=
         (if 973 \<le> n \<and> n < 1172
          then replicate 10 (spark\<lparr>p_life := 0.995 - 0.005 * real (n - 973)\<rparr>)
          else [])\<rparr>"

text \<open>
  States of that flight: one frame before the ball meets the bottom wall (after 972
  frames, at about 691.9, 591.9), just after the bounce (973 frames), with its right edge
  about to pass the right boundary (1305 frames, at about 791.8, 492.6), and one frame
  before it has left the surface on the right (1359 frames, at about 808, 476.4).
\<close>

definition at_bottom :: loop where
  "at_bottom =
     started\<lparr>ball_x := 6086016762065513 / 2 ^ 43, ball_y := 5206407459844879 / 2 ^ 43\<rparr>"

definition bounced :: loop where
  "bounced =
     started\<lparr>ball_x := 6088655589972175 / 2 ^ 43, ball_y := 5209046287751541 / 2 ^ 43,
             ball_dy := - double_of 0.3, particles := replicate 10 (fade spark)\<rparr>"

definition passing_right :: loop where
  "passing_right =
     started\<lparr>ball_x := 6964746454983959 / 2 ^ 43, ball_y := 8665910845479449 / 2 ^ 44,
             ball_dy := - double_of 0.3\<rparr>"

definition gone_right :: loop where
  "gone_right =
     started\<lparr>ball_x := 7107243161943707 / 2 ^ 43, ball_y := 8380917431559899 / 2 ^ 44,
             ball_dy := - double_of 0.3\<rparr>"

text \<open>The ball one frame before it has left the surface on the left, moving up.\<close>

definition gone_left :: loop where
  "gone_left =
     started\<lparr>ball_x := - 8, ball_y := 100.25,
             ball_dx := - double_of 0.3, ball_dy := - double_of 0.3\<rparr>"

text \<open>The same with paddles moved, two keys held and a particle alive.\<close>

definition busy :: loop where
  "busy = gone_left\<lparr>paddle1_y := 400, paddle2_y := 100, keys_w := True,
                     keys_ArrowDown := True, particles := [fade spark]\<rparr>"

text \<open>Player 1 at 14 points and the ball about to leave on the right.\<close>

definition match_point :: session where
  "match_point =
     \<lparr>comp = init_component\<lparr>gameStarted := True, score_player1 := 14, score_player2 := 9\<rparr>,
      running = Some gone_right\<rparr>"


definition descent :: "nat \<Rightarrow> loop" where
  "descent k =
     (flight k)\<lparr>
       keys_s := True,
       paddle1_y :=
         (if k < 15 then of_int (8796093022208000 + 14073748835533 * int k) / 2 ^ 45
          else of_int (4503599627370497 + 7036874417766 * (int k - 15)) / 2 ^ 44)\<rparr>"


text \<open>Start, press \<open>w\<close>, one frame; and the variables of the run after that.\<close>

definition first_moves :: "((nat \<Rightarrow> real) \<times> input) list" where
  "first_moves =
     [(rnd_half, ClickPlay), (rnd_half, ClickPlay), (rnd_half, KeyDown ''w''),
      (rnd_half, AnimationFrame)]"

definition moved :: loop where
  "moved =
     started\<lparr>ball_x := 7047429729393050 / 2 ^ 44, ball_y := 5288211124951450 / 2 ^ 44,
             paddle1_y := 8782019273372467 / 2 ^ 45, keys_w := True\<rparr>"

section \<open>Properties\<close>

subsection \<open>Rounding\<close>

lemma round_even_cases:
  "round_even q = \<lfloor>q\<rfloor> \<and> q - of_int \<lfloor>q\<rfloor> \<le> 1 / 2 \<or>
   round_even q = \<lfloor>q\<rfloor> + 1 \<and> 1 / 2 \<le> q - of_int \<lfloor>q\<rfloor>"
  by (auto simp: round_even_def Let_def)

lemma round_even_near: "\<bar>of_int (round_even q) - q\<bar> \<le> 1 / 2"
  using round_even_cases [of q] by (auto simp: abs_le_iff; linarith)

lemma round_even_of_int [simp]: "round_even (of_int n) = n"
  by (simp add: round_even_def)

lemma round_even_mono:
  assumes "q \<le> q'"
  shows "round_even q \<le> round_even q'"
proof (cases "\<lfloor>q\<rfloor> = \<lfloor>q'\<rfloor>")
  case True
  then show ?thesis
    using assms by (auto simp: round_even_def Let_def)
next
  case False
  then have "\<lfloor>q\<rfloor> < \<lfloor>q'\<rfloor>"
    using floor_mono [OF assms] by linarith
  moreover have "round_even q \<le> \<lfloor>q\<rfloor> + 1" and "\<lfloor>q'\<rfloor> \<le> round_even q'"
    using round_even_cases [of q] round_even_cases [of q'] by auto
  ultimately show ?thesis by linarith
qed

lemma round_even_minus: "round_even (- q) = - round_even q"
proof (cases "q \<in> \<int>")
  case True
  then obtain n where "q = of_int n" by (auto elim: Ints_cases)
  moreover have "round_even (- real_of_int n) = round_even (of_int (- n))" by simp
  ultimately show ?thesis
    by (simp only: round_even_of_int)
next
  case False
  then have "q \<noteq> of_int \<lfloor>q\<rfloor>"
    by (metis Ints_of_int)
  then have f: "\<lfloor>- q\<rfloor> = - \<lfloor>q\<rfloor> - 1"
    by (simp add: floor_minus ceiling_altdef)
  show ?thesis
    by (auto simp: round_even_def Let_def f)
qed

lemma floor_log2:
  assumes "2 powi e \<le> x" and "x < 2 powi (e + 1)"
  shows "\<lfloor>log 2 x\<rfloor> = e"
proof -
  have "0 < (2::real) powi e" by simp
  with assms(1) have x: "0 < x" by linarith
  have a: "2 powr real_of_int e = 2 powi e"
    and b: "2 powr real_of_int (e + 1) = 2 powi (e + 1)"
    by (simp_all only: powr_real_of_int' [of 2] zero_le_numeral numeral_neq_zero
        simp_thms)
  have "(\<lfloor>log 2 x\<rfloor> = e) = (2 powr real_of_int e \<le> x \<and> x < 2 powr real_of_int (e + 1))"
    using x by (intro floor_log_eq_powr_iff) simp_all
  then show ?thesis
    unfolding a b using assms by blast
qed

lemma binade:
  assumes "0 < x"
  shows "2 powi \<lfloor>log 2 x\<rfloor> \<le> x" and "x < 2 powi (\<lfloor>log 2 x\<rfloor> + 1)"
proof -
  have a: "2 powr real_of_int e = 2 powi e" for e
    by (simp only: powr_real_of_int' [of 2] zero_le_numeral numeral_neq_zero simp_thms)
  have "(\<lfloor>log 2 x\<rfloor> = \<lfloor>log 2 x\<rfloor>) =
      (2 powr real_of_int \<lfloor>log 2 x\<rfloor> \<le> x \<and> x < 2 powr real_of_int (\<lfloor>log 2 x\<rfloor> + 1))"
    using assms by (intro floor_log_eq_powr_iff) simp_all
  then show "2 powi \<lfloor>log 2 x\<rfloor> \<le> x" and "x < 2 powi (\<lfloor>log 2 x\<rfloor> + 1)"
    unfolding a by simp_all
qed

lemma double_of_minus: "double_of (- x) = - double_of x"
  by (simp add: double_of_def Let_def round_even_minus)

lemma double_of_pos:
  assumes "0 < x"
  shows "double_of x = of_int (round_even (x / 2 powi (\<lfloor>log 2 x\<rfloor> - 52))) * 2 powi (\<lfloor>log 2 x\<rfloor> - 52)"
  using assms by (simp add: double_of_def Let_def)

lemma double_of_binade:
  assumes "0 < x"
  shows "2 powi \<lfloor>log 2 x\<rfloor> \<le> double_of x" and "double_of x \<le> 2 powi (\<lfloor>log 2 x\<rfloor> + 1)"
proof -
  let ?e = "\<lfloor>log 2 x\<rfloor>"
  let ?u = "(2::real) powi (?e - 52)"
  have u: "0 < ?u" by simp
  have p: "(2::real) powi ?e = 2 ^ 52 * ?u" "(2::real) powi (?e + 1) = 2 ^ 53 * ?u"
    by (simp_all add: power_int_diff power_int_add)
  have lo: "of_int (2 ^ 52) \<le> x / ?u"
    using binade(1) [OF assms] u unfolding p by (simp add: field_simps)
  have hi: "x / ?u \<le> of_int (2 ^ 53)"
    using binade(2) [OF assms] u unfolding p by (simp add: field_simps)
  have "round_even (of_int (2 ^ 52)) \<le> round_even (x / ?u)"
    using lo by (rule round_even_mono)
  then have a: "(2::real) ^ 52 \<le> of_int (round_even (x / ?u))"
    unfolding round_even_of_int by (metis of_int_le_iff of_int_numeral of_int_power)
  have "round_even (x / ?u) \<le> round_even (of_int (2 ^ 53))"
    using hi by (rule round_even_mono)
  then have b: "of_int (round_even (x / ?u)) \<le> (2::real) ^ 53"
    unfolding round_even_of_int by (metis of_int_le_iff of_int_numeral of_int_power)
  show "2 powi ?e \<le> double_of x"
    unfolding double_of_pos [OF assms] p using a u by simp
  show "double_of x \<le> 2 powi (?e + 1)"
    unfolding double_of_pos [OF assms] p using b u by simp
qed

lemma double_of_mono_pos:
  assumes "0 < x" and "x \<le> y"
  shows "double_of x \<le> double_of y"
proof -
  have y: "0 < y" using assms by linarith
  have le: "\<lfloor>log 2 x\<rfloor> \<le> \<lfloor>log 2 y\<rfloor>"
    using assms by (intro floor_mono) simp
  show ?thesis
  proof (cases "\<lfloor>log 2 x\<rfloor> = \<lfloor>log 2 y\<rfloor>")
    case True
    let ?u = "(2::real) powi (\<lfloor>log 2 y\<rfloor> - 52)"
    have u: "0 < ?u" by simp
    have "x / ?u \<le> y / ?u"
      using assms(2) u by (simp add: divide_right_mono)
    then have "round_even (x / ?u) \<le> round_even (y / ?u)"
      by (rule round_even_mono)
    then have "of_int (round_even (x / ?u)) * ?u \<le> of_int (round_even (y / ?u)) * ?u"
      using u by simp
    then show ?thesis
      unfolding double_of_pos [OF assms(1)] double_of_pos [OF y] True .
  next
    case False
    with le have "\<lfloor>log 2 x\<rfloor> + 1 \<le> \<lfloor>log 2 y\<rfloor>" by linarith
    then have "(2::real) powi (\<lfloor>log 2 x\<rfloor> + 1) \<le> 2 powi \<lfloor>log 2 y\<rfloor>"
      by (intro power_int_increasing) simp_all
    then show ?thesis
      using double_of_binade(2) [OF assms(1)] double_of_binade(1) [OF y] by linarith
  qed
qed

lemma double_of_sign:
  "0 < x \<Longrightarrow> 0 < double_of x"
  "x < 0 \<Longrightarrow> double_of x < 0"
  "double_of 0 = 0"
proof -
  show p: "0 < double_of x" if "0 < x" for x
  proof -
    have "0 < (2::real) powi \<lfloor>log 2 x\<rfloor>" by simp
    then show ?thesis using double_of_binade(1) [OF that] by linarith
  qed
  show "double_of x < 0" if "x < 0"
    using p [of "- x"] that by (simp add: double_of_minus)
  show "double_of 0 = 0" by (simp add: double_of_def)
qed

lemma double_of_mono:
  assumes "x \<le> y"
  shows "double_of x \<le> double_of y"
proof -
  consider "0 < x" | "y < 0" | "x \<le> 0" "0 \<le> y" by linarith
  then show ?thesis
  proof cases
    case 1
    then show ?thesis using assms by (rule double_of_mono_pos)
  next
    case 2
    then have "double_of (- y) \<le> double_of (- x)"
      using assms by (intro double_of_mono_pos) simp_all
    then show ?thesis by (simp add: double_of_minus)
  next
    case 3
    have "double_of x \<le> 0"
      using double_of_sign(2) [of x] double_of_sign(3) 3(1) by (cases "x = 0") auto
    moreover have "0 \<le> double_of y"
      using double_of_sign(1) [of y] double_of_sign(3) 3(2) by (cases "y = 0") auto
    ultimately show ?thesis by linarith
  qed
qed

lemma double_of_error:
  assumes "\<bar>x\<bar> < 2 powi (e + 1)"
  shows "\<bar>double_of x - x\<bar> \<le> 2 powi (e - 53)"
proof (cases "x = 0")
  case True
  then show ?thesis by (simp add: double_of_def)
next
  case False
  let ?e = "\<lfloor>log 2 \<bar>x\<bar>\<rfloor>"
  let ?u = "(2::real) powi (?e - 52)"
  have u: "0 < ?u" by simp
  have ax: "0 < \<bar>x\<bar>" using False by simp
  have "(2::real) powi ?e < 2 powi (e + 1)"
    using binade(1) [OF ax] assms by linarith
  have "?e < e + 1"
  proof (rule ccontr)
    assume "\<not> ?e < e + 1"
    then have "e + 1 \<le> ?e" by simp
    then have "(2::real) powi (e + 1) \<le> 2 powi ?e"
      by (intro power_int_increasing) simp_all
    with \<open>(2::real) powi ?e < 2 powi (e + 1)\<close> show False by linarith
  qed
  then have "?e - 52 \<le> e - 52" by linarith
  then have ue: "?u \<le> 2 powi (e - 52)"
    by (intro power_int_increasing) simp_all
  have "\<bar>of_int (round_even (x / ?u)) - x / ?u\<bar> \<le> 1 / 2"
    by (rule round_even_near)
  then have "\<bar>of_int (round_even (x / ?u)) - x / ?u\<bar> * ?u \<le> 1 / 2 * ?u"
    using u by (simp del: times_divide_eq_left)
  moreover have "\<bar>of_int (round_even (x / ?u)) - x / ?u\<bar> * ?u =
      \<bar>of_int (round_even (x / ?u)) * ?u - x\<bar>"
  proof -
    have "\<bar>of_int (round_even (x / ?u)) - x / ?u\<bar> * ?u =
        \<bar>(of_int (round_even (x / ?u)) - x / ?u) * ?u\<bar>"
      using u by (simp add: abs_mult)
    also have "(of_int (round_even (x / ?u)) - x / ?u) * ?u =
        of_int (round_even (x / ?u)) * ?u - x"
      using u by (simp add: field_simps)
    finally show ?thesis .
  qed
  ultimately have "\<bar>double_of x - x\<bar> \<le> 1 / 2 * ?u"
    using False by (simp add: double_of_def Let_def)
  also have "\<dots> \<le> 1 / 2 * 2 powi (e - 52)"
    using ue by simp
  also have "\<dots> = 2 powi (e - 53)"
    by (simp add: power_int_diff)
  finally show ?thesis .
qed

lemma double_of_grid:
  assumes lo: "2 powi e \<le> x" and hi: "x < 2 powi (e + 1)"
    and x: "x = (of_int n + r) * 2 powi (e - 52)" and r: "\<bar>r\<bar> < 1 / 2"
  shows "double_of x = of_int n * 2 powi (e - 52)"
proof -
  have "0 < (2::real) powi e" by simp
  with lo have pos: "0 < x" by linarith
  have lg: "\<lfloor>log 2 x\<rfloor> = e"
    using lo hi by (rule floor_log2)
  have u: "0 < (2::real) powi (e - 52)" by simp
  have q: "x / 2 powi (e - 52) = of_int n + r"
    using u by (simp add: x)
  have "round_even (of_int n + r) = n"
  proof (cases "0 \<le> r")
    case True
    then have "\<lfloor>of_int n + r\<rfloor> = n" using r by (simp add: floor_unique)
    then show ?thesis using r True by (simp add: round_even_def Let_def)
  next
    case False
    then have "\<lfloor>of_int n + r\<rfloor> = n - 1" using r by (simp add: floor_unique)
    then show ?thesis using r False by (simp add: round_even_def Let_def)
  qed
  then show ?thesis
    unfolding double_of_pos [OF pos] lg q by simp
qed

lemma double_of_exact:
  assumes "2 powi e \<le> x" and "x < 2 powi (e + 1)" and "x = of_int n * 2 powi (e - 52)"
  shows "double_of x = x"
  using double_of_grid [of e x n 0] assms by simp


text \<open>The doubles of the literals \<open>0.3\<close> and \<open>0.4\<close>.\<close>

lemma double_three_tenths: "double_of 0.3 = 5404319552844595 / 2 ^ 54"
proof -
  have "double_of (3 / 10) = of_int 5404319552844595 * 2 powi (- 2 - 52)"
    by (rule double_of_grid [where r = "1 / 5"]) (simp_all add: power_int_minus)
  then show ?thesis
    by (simp add: power_int_minus)
qed

lemma double_speed: "paddle_speed = 3602879701896397 / 2 ^ 53"
proof -
  have "double_of (4 / 10) = of_int 7205759403792794 * 2 powi (- 2 - 52)"
    by (rule double_of_grid [where r = "- 2 / 5"]) (simp_all add: power_int_minus)
  then show ?thesis
    by (simp add: paddle_speed_def power_int_minus)
qed

lemma double_of_nat_small:
  "double_of 8 = 8" "double_of 10 = 10" "double_of 250 = 250" "double_of 350 = 350"
  "double_of 500 = 500" "double_of 592 = 592" "double_of 600 = 600"
  "double_of 790 = 790" "double_of 800 = 800"
proof -
  show "double_of 8 = 8"
    by (rule double_of_exact [of 3 _ "2 ^ 52"]) (simp_all add: power_int_minus)
  show "double_of 10 = 10"
    by (rule double_of_exact [of 3 _ "10 * 2 ^ 49"]) (simp_all add: power_int_minus)
  show "double_of 250 = 250"
    by (rule double_of_exact [of 7 _ "250 * 2 ^ 45"]) (simp_all add: power_int_minus)
  show "double_of 350 = 350"
    by (rule double_of_exact [of 8 _ "350 * 2 ^ 44"]) (simp_all add: power_int_minus)
  show "double_of 500 = 500"
    by (rule double_of_exact [of 8 _ "500 * 2 ^ 44"]) (simp_all add: power_int_minus)
  show "double_of 592 = 592"
    by (rule double_of_exact [of 9 _ "592 * 2 ^ 43"]) (simp_all add: power_int_minus)
  show "double_of 600 = 600"
    by (rule double_of_exact [of 9 _ "600 * 2 ^ 43"]) (simp_all add: power_int_minus)
  show "double_of 790 = 790"
    by (rule double_of_exact [of 9 _ "790 * 2 ^ 43"]) (simp_all add: power_int_minus)
  show "double_of 800 = 800"
    by (rule double_of_exact [of 9 _ "800 * 2 ^ 43"]) (simp_all add: power_int_minus)
qed

lemma double_grid_point:
  assumes d: "double_of y = y" and lo: "2 powi e \<le> y" and hi: "y < 2 powi (e + 1)"
  obtains m where "y = of_int m * 2 powi (e - 52)"
proof -
  have "0 < (2::real) powi e" by simp
  with lo have y0: "0 < y" by linarith
  have lg: "\<lfloor>log 2 y\<rfloor> = e"
    using lo hi by (rule floor_log2)
  have "y = of_int (round_even (y / 2 powi (e - 52))) * 2 powi (e - 52)"
    using double_of_pos [OF y0] d lg by simp
  then show ?thesis by (rule that)
qed

lemma double_succ:
  assumes d: "double_of y = y" and lo: "(2::real) powi e \<le> real_of_int k * 2 powi (e - 52)"
    and lt: "real_of_int k * 2 powi (e - 52) < y" and hi: "y < 2 powi (e + 1)"
  shows "real_of_int (k + 1) * 2 powi (e - 52) \<le> y"
proof -
  have u: "0 < (2::real) powi (e - 52)" by simp
  from lo lt have "2 powi e \<le> y" by linarith
  with d obtain m where m: "y = of_int m * 2 powi (e - 52)"
    using hi by (rule double_grid_point)
  from lt have "real_of_int k < of_int m"
    unfolding m using u by simp
  then have "k + 1 \<le> m" by linarith
  then have "real_of_int (k + 1) \<le> of_int m" by linarith
  then show ?thesis
    unfolding m using u by (simp only: mult_le_cancel_right_pos)
qed

lemma double_pred:
  assumes d: "double_of y = y" and lo: "2 powi e \<le> y"
    and lt: "y < real_of_int k * 2 powi (e - 52)"
    and hi: "real_of_int k * 2 powi (e - 52) \<le> (2::real) powi (e + 1)"
  shows "y \<le> real_of_int (k - 1) * 2 powi (e - 52)"
proof -
  have u: "0 < (2::real) powi (e - 52)" by simp
  from lt hi have "y < 2 powi (e + 1)" by linarith
  with d lo obtain m where m: "y = of_int m * 2 powi (e - 52)"
    by (rule double_grid_point)
  from lt have "real_of_int m < of_int k"
    unfolding m using u by simp
  then have "m \<le> k - 1" by linarith
  then have "real_of_int m \<le> of_int (k - 1)" by linarith
  then show ?thesis
    unfolding m using u by (simp only: mult_le_cancel_right_pos)
qed

text \<open>
  For a position that is a double, the tests of \<open>update\<close> have the same outcome on the
  rounded sum as on the sum.
\<close>

lemma double_of_neg_iff: "(double_of z < 0) = (z < 0)"
proof (cases "z < 0")
  case True
  then show ?thesis using double_of_sign(2) [of z] by simp
next
  case False
  have "0 \<le> double_of z"
  proof (cases "z = 0")
    case True
    then show ?thesis by (simp add: double_of_sign(3))
  next
    case nz: False
    with False have "0 < z" by simp
    then have "0 < double_of z" by (rule double_of_sign(1))
    then show ?thesis by simp
  qed
  with False show ?thesis by simp
qed

lemma test_above:
  assumes d: "double_of y = y" and t: "512 \<le> t" "512 \<le> t - b" "t < 1023" "t \<le> 1023 + b"
  shows "(of_int t < double_of (y + of_int b)) = (real_of_int t < y + of_int b)"
proof
  have T: "double_of (of_int t) = of_int t"
    by (rule double_of_exact [of 9 _ "t * 2 ^ 43"]) (use t in \<open>simp_all add: power_int_minus\<close>)
  show "real_of_int t < y + of_int b" if "of_int t < double_of (y + of_int b)"
  proof (rule ccontr)
    assume "\<not> real_of_int t < y + of_int b"
    then have "double_of (y + of_int b) \<le> double_of (of_int t)"
      by (intro double_of_mono) simp
    with that T show False by simp
  qed
  show "of_int t < double_of (y + of_int b)" if g: "real_of_int t < y + of_int b"
  proof (cases "y < 1024")
    case True
    have "of_int ((t - b) * 2 ^ 43 + 1) * 2 powi (9 - 52) \<le> y"
      by (rule double_succ [OF d]) (use t g True in \<open>simp_all add: power_int_minus field_simps\<close>)
    then have "of_int t + 2 powi (- 43) \<le> y + of_int b"
      by (simp add: power_int_minus field_simps)
    then have "double_of (of_int t + 2 powi (- 43)) \<le> double_of (y + of_int b)"
      by (rule double_of_mono)
    moreover have "double_of (of_int t + 2 powi (- 43)) = of_int t + 2 powi (- 43)"
      by (rule double_of_exact [of 9 _ "t * 2 ^ 43 + 1"])
         (use t in \<open>simp_all add: power_int_minus field_simps\<close>)
    ultimately show ?thesis by simp
  next
    case False
    then have "of_int (t + 1) \<le> y + real_of_int b"
      using t by simp
    then have "double_of (of_int (t + 1)) \<le> double_of (y + of_int b)"
      by (rule double_of_mono)
    moreover have "double_of (of_int (t + 1)) = of_int (t + 1)"
      by (rule double_of_exact [of 9 _ "(t + 1) * 2 ^ 43"])
         (use t in \<open>simp_all add: power_int_minus\<close>)
    ultimately show ?thesis by simp
  qed
qed

lemma test_bottom:
  "double_of y = y \<Longrightarrow>
   (canvas_height < double_of (y + ball_radius)) = (canvas_height < y + ball_radius)"
  using test_above [of y 600 8] by (simp add: canvas_height_def ball_radius_def)

lemma test_top: "(double_of (y - ball_radius) < 0) = (y - ball_radius < 0)"
  by (rule double_of_neg_iff)

lemma test_right_paddle:
  "double_of x = x \<Longrightarrow>
   (canvas_width - paddleWidth < double_of (x + ball_radius)) =
   (canvas_width - paddleWidth < x + ball_radius)"
  using test_above [of x 790 8] by (simp add: canvas_width_def paddleWidth_def ball_radius_def)

lemma test_out_left: "(double_of (x + ball_radius) < 0) = (x + ball_radius < 0)"
  by (rule double_of_neg_iff)

lemma test_out_right:
  "double_of x = x \<Longrightarrow>
   (canvas_width < double_of (x - ball_radius)) = (canvas_width < x - ball_radius)"
  using test_above [of x 800 "- 8"] by (simp add: canvas_width_def ball_radius_def)

lemma test_left_paddle:
  assumes d: "double_of x = x"
  shows "(double_of (x - ball_radius) < paddleWidth) = (x - ball_radius < paddleWidth)"
proof
  show "x - ball_radius < paddleWidth" if "double_of (x - ball_radius) < paddleWidth"
  proof (rule ccontr)
    assume "\<not> x - ball_radius < paddleWidth"
    then have "double_of 10 \<le> double_of (x - ball_radius)"
      by (intro double_of_mono) (simp add: paddleWidth_def)
    with that show False by (simp add: double_of_nat_small paddleWidth_def)
  qed
  show "double_of (x - ball_radius) < paddleWidth" if g: "x - ball_radius < paddleWidth"
  proof (cases "16 \<le> x")
    case True
    have "x \<le> of_int (18 * 2 ^ 48 - 1) * 2 powi (4 - 52)"
      by (rule double_pred [OF d])
         (use g True in \<open>simp_all add: power_int_minus paddleWidth_def ball_radius_def\<close>)
    then have "x - ball_radius \<le> 10 - 2 powi (- 48)"
      by (simp add: power_int_minus field_simps ball_radius_def)
    then have "double_of (x - ball_radius) \<le> double_of (10 - 2 powi (- 48))"
      by (rule double_of_mono)
    moreover have "double_of (10 - 2 powi (- 48)) = 10 - 2 powi (- 48)"
      by (rule double_of_exact [of 3 _ "10 * 2 ^ 49 - 2"])
         (simp_all add: power_int_minus field_simps)
    ultimately show ?thesis by (simp add: paddleWidth_def)
  next
    case False
    then have "double_of (x - ball_radius) \<le> double_of 8"
      by (intro double_of_mono) (simp add: ball_radius_def)
    then show ?thesis by (simp add: double_of_nat_small paddleWidth_def)
  qed
qed

subsection \<open>What one frame does to each variable\<close>

lemma move_paddles_frame [simp]:
  "particles (move_paddles l) = particles l"
  "ball_x (move_paddles l) = ball_x l"
  "ball_y (move_paddles l) = ball_y l"
  "ball_dx (move_paddles l) = ball_dx l"
  "ball_dy (move_paddles l) = ball_dy l"
  "keys_w (move_paddles l) = keys_w l"
  "keys_s (move_paddles l) = keys_s l"
  "keys_ArrowUp (move_paddles l) = keys_ArrowUp l"
  "keys_ArrowDown (move_paddles l) = keys_ArrowDown l"
  by (simp_all add: move_paddles_def Let_def)

lemmas frame_defs =
  update_def Let_def wall_collision_def paddle_collision_def score_points_def move_ball_def

lemma update_ball_dy:
  "ball_dy (fst (update rnd l)) =
     (if hits_wall (move_ball (move_paddles l)) then - ball_dy l else ball_dy l)"
  by (simp add: frame_defs split: prod.splits)

lemma update_ball_dx:
  "ball_dx (fst (update rnd l)) =
     (if out_left (move_ball (move_paddles l)) then double_of 0.3
      else if out_right (move_ball (move_paddles l)) then - double_of 0.3
      else if hits_paddle (move_ball (move_paddles l)) then - ball_dx l else ball_dx l)"
  by (simp add: frame_defs hits_paddle_def out_left_def out_right_def split: prod.splits)

lemma update_requests:
  "snd (update rnd l) =
     (if hits_wall (move_ball (move_paddles l)) then [PlaySound WallHitSound] else []) @
     (if hits_paddle (move_ball (move_paddles l)) then [PlaySound PaddleHitSound] else []) @
     (if out_left (move_ball (move_paddles l))
      then [ScorePoint Player2, PlaySound ScoreSound]
      else if out_right (move_ball (move_paddles l))
      then [ScorePoint Player1, PlaySound ScoreSound]
      else [])"
  by (simp add: frame_defs hits_paddle_def out_left_def out_right_def split: prod.splits)

lemma update_ball_x:
  "ball_x (fst (update rnd l)) =
     (if out_left (move_ball (move_paddles l)) \<or> out_right (move_ball (move_paddles l))
      then canvas_width / 2 else double_of (ball_x l + ball_dx l))"
  by (simp add: frame_defs out_left_def out_right_def split: prod.splits)

lemma update_ball_y:
  "ball_y (fst (update rnd l)) =
     (if out_left (move_ball (move_paddles l)) \<or> out_right (move_ball (move_paddles l))
      then canvas_height / 2 else double_of (ball_y l + ball_dy l))"
  by (simp add: frame_defs out_left_def out_right_def split: prod.splits)

lemma update_paddles:
  "paddle1_y (fst (update rnd l)) = paddle1_y (move_paddles l)"
  "paddle2_y (fst (update rnd l)) = paddle2_y (move_paddles l)"
  by (simp_all add: frame_defs split: prod.splits)

lemma update_keys:
  "keys_w (fst (update rnd l)) = keys_w l"
  "keys_s (fst (update rnd l)) = keys_s l"
  "keys_ArrowUp (fst (update rnd l)) = keys_ArrowUp l"
  "keys_ArrowDown (fst (update rnd l)) = keys_ArrowDown l"
  by (simp_all add: frame_defs split: prod.splits)

lemma update_particles:
  "particles (fst (update rnd l)) =
     updateParticles (particles l @
       (if hits_wall (move_ball (move_paddles l))
        then createParticles (double_of (ball_x l + ball_dx l))
               (double_of (ball_y l + ball_dy l)) 10 rnd
        else []) @
       (if hits_paddle (move_ball (move_paddles l))
        then createParticles (double_of (ball_x l + ball_dx l))
               (double_of (ball_y l + ball_dy l)) 15
               (if hits_wall (move_ball (move_paddles l)) then (\<lambda>k. rnd (k + 20)) else rnd)
        else []))"
  by (simp add: frame_defs hits_paddle_def split: prod.splits)

subsection \<open>Sessions: shared facts\<close>

lemmas geometry_defs = canvas_width_def canvas_height_def ball_radius_def paddleHeight_def
  paddleWidth_def

text \<open>
  A rounded step of the ball between 256 and 512, where doubles are \<open>2 powi (- 44)\<close>
  apart, and between 512 and 1024, where they are \<open>2 powi (- 43)\<close> apart.
\<close>

lemma step_up_44:
  assumes x: "x = of_int X / 2 ^ 44" and lo: "256 \<le> x + double_of 0.3"
    and hi: "x + double_of 0.3 < 512"
  shows "double_of (x + double_of 0.3) = of_int (X + 5277655813325) / 2 ^ 44"
proof -
  have "double_of (x + 5404319552844595 / 2 ^ 54) =
      of_int (X + 5277655813325) * 2 powi (8 - 52)"
    by (rule double_of_grid [where r = "- 205 / 1024"])
       (use lo hi in \<open>simp_all add: x double_three_tenths power_int_minus field_simps\<close>)
  then show ?thesis
    by (simp add: double_three_tenths power_int_minus field_simps)
qed

lemma step_up_43:
  assumes x: "x = of_int X / 2 ^ 43" and lo: "512 \<le> x + double_of 0.3"
    and hi: "x + double_of 0.3 < 1024"
  shows "double_of (x + double_of 0.3) = of_int (X + 2638827906662) / 2 ^ 43"
proof -
  have "double_of (x + 5404319552844595 / 2 ^ 54) =
      of_int (X + 2638827906662) * 2 powi (9 - 52)"
    by (rule double_of_grid [where r = "819 / 2048"])
       (use lo hi in \<open>simp_all add: x double_three_tenths power_int_minus field_simps\<close>)
  then show ?thesis
    by (simp add: double_three_tenths power_int_minus field_simps)
qed

lemma step_down_43:
  assumes x: "x = of_int X / 2 ^ 43" and lo: "512 \<le> x - double_of 0.3"
    and hi: "x - double_of 0.3 < 1024"
  shows "double_of (x - double_of 0.3) = of_int (X - 2638827906662) / 2 ^ 43"
proof -
  have "double_of (x - 5404319552844595 / 2 ^ 54) =
      of_int (X - 2638827906662) * 2 powi (9 - 52)"
    by (rule double_of_grid [where r = "- 819 / 2048"])
       (use lo hi in \<open>simp_all add: x double_three_tenths power_int_minus field_simps\<close>)
  then show ?thesis
    by (simp add: double_three_tenths power_int_minus field_simps)
qed

lemma step_down_44:
  assumes x: "x = of_int X / 2 ^ 44" and lo: "256 \<le> x - double_of 0.3"
    and hi: "x - double_of 0.3 < 512"
  shows "double_of (x - double_of 0.3) = of_int (X - 5277655813325) / 2 ^ 44"
proof -
  have "double_of (x - 5404319552844595 / 2 ^ 54) =
      of_int (X - 5277655813325) * 2 powi (8 - 52)"
    by (rule double_of_grid [where r = "205 / 1024"])
       (use lo hi in \<open>simp_all add: x double_three_tenths power_int_minus field_simps\<close>)
  then show ?thesis
    by (simp add: double_three_tenths power_int_minus field_simps)
qed

text \<open>The step that takes the ball of an untouched game past 512, in each direction.\<close>

lemma step_past_512:
  "double_of (9005440036136625 / 2 ^ 44 + double_of 0.3) = 4505358845974975 / 2 ^ 43"
  "double_of (9003680817532250 / 2 ^ 44 + double_of 0.3) = 4504479236672787 / 2 ^ 43"
proof -
  have "double_of (9005440036136625 / 2 ^ 44 + 5404319552844595 / 2 ^ 54) =
      of_int 4505358845974975 * 2 powi (9 - 52)"
    by (rule double_of_grid [where r = "- 205 / 2048"]) (simp_all add: power_int_minus)
  then show "double_of (9005440036136625 / 2 ^ 44 + double_of 0.3) =
      4505358845974975 / 2 ^ 43"
    by (simp add: double_three_tenths power_int_minus)
  have "double_of (9003680817532250 / 2 ^ 44 + 5404319552844595 / 2 ^ 54) =
      of_int 4504479236672787 * 2 powi (9 - 52)"
    by (rule double_of_grid [where r = "819 / 2048"]) (simp_all add: power_int_minus)
  then show "double_of (9003680817532250 / 2 ^ 44 + double_of 0.3) =
      4504479236672787 / 2 ^ 43"
    by (simp add: double_three_tenths power_int_minus)
qed



lemma paddle_up_250: "double_of (250 - paddle_speed) = 8782019273372467 / 2 ^ 45"
proof -
  have "double_of (250 - 3602879701896397 / 2 ^ 53) =
      of_int 8782019273372467 * 2 powi (7 - 52)"
    by (rule double_of_grid [where r = "51 / 256"]) (simp_all add: power_int_minus)
  then show ?thesis
    by (simp add: double_speed power_int_minus)
qed

text \<open>A frame without a collision and without a point only moves.\<close>

lemma update_calm:
  assumes "\<not> hits_wall (move_ball (move_paddles l))"
    and "\<not> hits_paddle (move_ball (move_paddles l))"
    and "\<not> out_left (move_ball (move_paddles l))"
    and "\<not> out_right (move_ball (move_paddles l))"
  shows "update rnd l =
     ((move_ball (move_paddles l))\<lparr>particles := updateParticles (particles l)\<rparr>, [])"
  by (simp add: update_def Let_def wall_collision_def paddle_collision_def score_points_def
      assms)
     (simp add: move_ball_def)

lemma idle_paddles:
  "\<not> keys_w l \<Longrightarrow> \<not> keys_s l \<Longrightarrow> \<not> keys_ArrowUp l \<Longrightarrow> \<not> keys_ArrowDown l \<Longrightarrow>
   move_paddles l = l"
  by (simp add: move_paddles_def)

lemma first_update: "update rnd init_loop = (started, [])"
proof -
  have m: "move_paddles init_loop = init_loop"
    by (rule idle_paddles) (simp_all add: init_loop_def)
  have x: "double_of (400 + double_of 0.3) = of_int (7036874417766400 + 5277655813325) / 2 ^ 44"
    by (rule step_up_44) (simp_all add: double_three_tenths)
  have y: "double_of (300 + double_of 0.3) = of_int (5277655813324800 + 5277655813325) / 2 ^ 44"
    by (rule step_up_44) (simp_all add: double_three_tenths)
  have b: "move_ball init_loop =
      init_loop\<lparr>ball_x := 7042152073579725 / 2 ^ 44, ball_y := 5282933469138125 / 2 ^ 44\<rparr>"
    using x y by (simp add: move_ball_def init_loop_def geometry_defs)
  have "update rnd init_loop =
      ((move_ball (move_paddles init_loop))\<lparr>particles := updateParticles (particles init_loop)\<rparr>, [])"
    by (rule update_calm; simp only: m b;
        simp add: hits_wall_def hits_paddle_def out_left_def out_right_def init_loop_def
          geometry_defs)
  then show ?thesis
    unfolding m b by (simp add: init_loop_def started_def geometry_defs)
qed

lemma set_key_frame [simp]:
  "particles (set_key k b l) = particles l"
  "ball_x (set_key k b l) = ball_x l"
  "ball_y (set_key k b l) = ball_y l"
  "ball_dx (set_key k b l) = ball_dx l"
  "ball_dy (set_key k b l) = ball_dy l"
  "paddle1_y (set_key k b l) = paddle1_y l"
  "paddle2_y (set_key k b l) = paddle2_y l"
  by (simp_all add: set_key_def)

lemma scored_iff:
  "list_ex is_score (snd (update rnd l)) \<longleftrightarrow>
     out_left (move_ball (move_paddles l)) \<or> out_right (move_ball (move_paddles l))"
  by (simp add: update_requests)

lemma filter_score:
  "filter is_score (snd (update rnd l)) =
     (if out_left (move_ball (move_paddles l)) then [ScorePoint Player2]
      else if out_right (move_ball (move_paddles l)) then [ScorePoint Player1] else [])"
  by (simp add: update_requests)

lemma apply_requests:
  "fold apply_request (snd (update rnd l)) c =
     (if out_left (move_ball (move_paddles l)) then c\<lparr>score_player2 := score_player2 c + 1\<rparr>
      else if out_right (move_ball (move_paddles l)) then c\<lparr>score_player1 := score_player1 c + 1\<rparr>
      else c)"
  by (simp add: update_requests)

lemma step_frame:
  "running s = Some l \<Longrightarrow>
   step rnd AnimationFrame s =
     commit rnd (comp s) (list_ex is_score (snd (update rnd l)))
       (fold apply_request (snd (update rnd l)) (comp s)) (Some (fst (update rnd l)))"
  by (simp add: step_def split: prod.splits)

lemma step_idle:
  "running s = None \<Longrightarrow> step rnd AnimationFrame s = s"
  "running s = None \<Longrightarrow> step rnd (KeyDown k) s = s"
  "running s = None \<Longrightarrow> step rnd (KeyUp k) s = s"
  by (simp_all add: step_def)

lemma step_running_cases:
  assumes "running (step rnd i s) = Some l'"
  shows "l' = started \<or>
         (\<exists>l. running s = Some l \<and>
            (l' = l \<or> l' = fst (update rnd l) \<or> (\<exists>k b. l' = set_key k b l)))"
  using assms
  by (cases i)
     (auto simp: step_def commit_def game_loop_effect_def Let_def first_update
           split: option.splits if_splits prod.splits)

lemma run_invariant:
  assumes start: "P started"
    and frame: "\<And>rnd l. P l \<Longrightarrow> P (fst (update rnd l))"
    and key: "\<And>k b l. P l \<Longrightarrow> P (set_key k b l)"
  shows "(\<And>l. running s = Some l \<Longrightarrow> P l) \<Longrightarrow> running (run ins s) = Some l' \<Longrightarrow> P l'"
proof (induction ins arbitrary: s)
  case Nil
  then show ?case by simp
next
  case (Cons a ins)
  obtain rnd i where a: "a = (rnd, i)" by (cases a)
  have "P l" if "running (step rnd i s) = Some l" for l
    using step_running_cases [OF that] start frame key Cons.prems(1) by auto
  then show ?case using Cons.IH [of "step rnd i s"] Cons.prems(2) a by simp
qed

lemma reachable_invariant:
  assumes "P started"
    and "\<And>rnd l. P l \<Longrightarrow> P (fst (update rnd l))"
    and "\<And>k b l. P l \<Longrightarrow> P (set_key k b l)"
    and "running (run ins init_session) = Some l"
  shows "P l"
  using run_invariant [of P init_session ins l] assms by (simp add: init_session_def)

lemma run_play:
  "run [(r1, ClickPlay), (r2, ClickPlay)] init_session =
     \<lparr>comp = init_component\<lparr>gameStarted := True\<rparr>, running = Some started\<rparr>"
proof -
  have "step r1 ClickPlay init_session = init_session\<lparr>comp := init_component\<lparr>showControls := True\<rparr>\<rparr>"
    by (simp add: step_def commit_def game_loop_effect_def init_session_def init_component_def
     handleStart_def handleStart_sets_score_def loop_deps_def winner_effect_def)
  moreover have "step r2 ClickPlay (init_session\<lparr>comp := init_component\<lparr>showControls := True\<rparr>\<rparr>)
   = \<lparr>comp = init_component\<lparr>gameStarted := True\<rparr>, running = Some started\<rparr>"
    by (simp add: step_def commit_def game_loop_effect_def init_session_def init_component_def
     handleStart_def handleStart_sets_score_def loop_deps_def winner_effect_def first_update)
  ultimately show ?thesis by simp
qed

lemma score_requests:
  "ScorePoint Player2 \<in> set (snd (update rnd l)) \<longleftrightarrow> out_left (move_ball (move_paddles l))"
  "ScorePoint Player1 \<in> set (snd (update rnd l)) \<longleftrightarrow> out_right (move_ball (move_paddles l))"
  "PlaySound ScoreSound \<in> set (snd (update rnd l)) \<longleftrightarrow>
     out_left (move_ball (move_paddles l)) \<or> out_right (move_ball (move_paddles l))"
  by (auto simp: update_requests out_left_def out_right_def geometry_defs)

lemma out_tests:
  "out_left (move_ball (move_paddles l)) \<longleftrightarrow>
     double_of (ball_x l + ball_dx l) + ball_radius < 0"
  "out_right (move_ball (move_paddles l)) \<longleftrightarrow>
     canvas_width < double_of (ball_x l + ball_dx l) - ball_radius"
  by (simp_all add: out_left_def out_right_def move_ball_def)

lemma out_exclusive:
  "out_right l \<Longrightarrow> \<not> out_left l"
  by (simp add: out_left_def out_right_def geometry_defs)

lemma commit_score:
  "score_player1 (comp (commit rnd old f new lp)) = score_player1 new"
  "score_player2 (comp (commit rnd old f new lp)) = score_player2 new"
  by (simp_all add: commit_def Let_def winner_effect_def)

lemma step_frame_score:
  assumes "running s = Some l"
  shows "score_player1 (comp (step rnd AnimationFrame s)) =
           (if out_right (move_ball (move_paddles l)) then score_player1 (comp s) + 1
            else score_player1 (comp s))"
    and "score_player2 (comp (step rnd AnimationFrame s)) =
           (if out_left (move_ball (move_paddles l)) then score_player2 (comp s) + 1
            else score_player2 (comp s))"
  using out_exclusive [of "move_ball (move_paddles l)"]
  by (auto simp add: step_frame [OF assms] commit_score apply_requests)

lemma game_loop_effect_flags:
  "gameStarted c = gameStarted c' \<Longrightarrow> gamePaused c = gamePaused c' \<Longrightarrow>
   game_loop_effect rnd c = game_loop_effect rnd c'"
  by (simp add: game_loop_effect_def)

lemma commit_rerun:
  assumes "loop_deps new \<noteq> loop_deps old"
  shows "running (commit rnd old f new lp) = game_loop_effect rnd (comp (commit rnd old f new lp))"
  using assms
  by (auto simp: commit_def Let_def loop_deps_def intro: game_loop_effect_flags)

lemma step_frame_scoring:
  assumes "running s = Some l" and "list_ex is_score (snd (update rnd l))"
  shows "loop_deps (fold apply_request (snd (update rnd l)) (comp s)) \<noteq> loop_deps (comp s)"
    and "running (step rnd AnimationFrame s) =
           game_loop_effect rnd (comp (step rnd AnimationFrame s))"
proof -
  show d: "loop_deps (fold apply_request (snd (update rnd l)) (comp s)) \<noteq> loop_deps (comp s)"
    using assms(2) by (auto simp: apply_requests scored_iff loop_deps_def)
  show "running (step rnd AnimationFrame s) =
           game_loop_effect rnd (comp (step rnd AnimationFrame s))"
    by (simp only: step_frame [OF assms(1)] commit_rerun [OF d])
qed

lemma step_frame_flags:
  assumes "running s = Some l"
  shows "gamePaused (comp (step rnd AnimationFrame s)) = gamePaused (comp s)"
    and "gameStarted (comp (step rnd AnimationFrame s)) =
           (if list_ex is_score (snd (update rnd l)) \<and>
               (15 \<le> score_player1 (comp (step rnd AnimationFrame s)) \<or>
                15 \<le> score_player2 (comp (step rnd AnimationFrame s)))
            then False else gameStarted (comp s))"
    and "winner (comp (step rnd AnimationFrame s)) =
           (if list_ex is_score (snd (update rnd l)) \<and>
               15 \<le> score_player1 (comp (step rnd AnimationFrame s))
            then Some ''Player 1''
            else if list_ex is_score (snd (update rnd l)) \<and>
               15 \<le> score_player2 (comp (step rnd AnimationFrame s))
            then Some ''Player 2''
            else winner (comp s))"
  by (auto simp: step_frame [OF assms] commit_def Let_def winner_effect_def apply_requests
      scored_iff)

lemma step_frame_restart:
  assumes "running s = Some l" and "list_ex is_score (snd (update rnd l))"
    and "gameStarted (comp s)" and "\<not> gamePaused (comp s)"
    and "score_player1 (comp (step rnd AnimationFrame s)) < 15"
    and "score_player2 (comp (step rnd AnimationFrame s)) < 15"
  shows "running (step rnd AnimationFrame s) = Some started"
proof -
  from assms have "gameStarted (comp (step rnd AnimationFrame s))"
    and "\<not> gamePaused (comp (step rnd AnimationFrame s))"
    by (simp_all add: step_frame_flags [OF assms(1)])
  then show ?thesis
    by (simp add: step_frame_scoring(2) [OF assms(1,2)] game_loop_effect_def first_update)
qed

lemma run_append: "run (xs @ ys) s = run ys (run xs s)"
  by (induction xs arbitrary: s) auto

lemma run_snoc: "run (xs @ [(rnd, i)]) s = step rnd i (run xs s)"
  by (simp add: run_append)

lemma step_frame_quiet:
  "running s = Some l \<Longrightarrow> \<not> list_ex is_score (snd (update rnd l)) \<Longrightarrow>
   step rnd AnimationFrame s = s\<lparr>running := Some (fst (update rnd l))\<rparr>"
  by (simp add: step_frame commit_def Let_def apply_requests scored_iff)

subsection \<open>An untouched game\<close>

lemma flight_fields [simp]:
  "ball_dx (flight n) = double_of 0.3"
  "paddle1_y (flight n) = 250"
  "paddle2_y (flight n) = 250"
  "\<not> keys_w (flight n)" "\<not> keys_s (flight n)"
  "\<not> keys_ArrowUp (flight n)" "\<not> keys_ArrowDown (flight n)"
  by (simp_all add: flight_def started_def)

lemma flight_x:
  assumes "n < 1359"
  shows "double_of (ball_x (flight n) + double_of 0.3) = ball_x (flight (Suc n))"
proof -
  consider "n < 372" | "n = 372" | "373 \<le> n" by linarith
  then show ?thesis
  proof cases
    case 1
    then have n: "real n \<le> 371" by simp
    have "double_of (of_int (7042152073579725 + 5277655813325 * int n) / 2 ^ 44 + double_of 0.3) =
        of_int (7042152073579725 + 5277655813325 * int n + 5277655813325) / 2 ^ 44"
      by (rule step_up_44 [OF refl]) (use n in \<open>simp_all add: double_three_tenths field_simps\<close>)
    then show ?thesis
      using 1 by (simp add: flight_def algebra_simps)
  next
    case 2
    then show ?thesis
      using step_past_512(1) by (simp add: flight_def)
  next
    case 3
    then have n: "373 \<le> real n" "real n \<le> 1358" using assms by simp_all
    have "double_of (of_int (4505358845974975 + 2638827906662 * (int n - 373)) / 2 ^ 43 +
          double_of 0.3) =
        of_int (4505358845974975 + 2638827906662 * (int n - 373) + 2638827906662) / 2 ^ 43"
      by (rule step_up_43 [OF refl]) (use n in \<open>simp_all add: double_three_tenths field_simps\<close>)
    then show ?thesis
      using 3 by (simp add: flight_def algebra_simps)
  qed
qed

lemma flight_y:
  assumes "n < 1359"
  shows "double_of (ball_y (flight n) + ball_dy (flight n)) = ball_y (flight (Suc n))"
proof -
  consider "n < 705" | "n = 705" | "706 \<le> n" "n < 973" | "973 \<le> n" "n < 1240"
    | "n = 1240" | "1241 \<le> n"
    by linarith
  then show ?thesis
  proof cases
    case 1
    then have n: "real n \<le> 704" by simp
    have "double_of (of_int (5282933469138125 + 5277655813325 * int n) / 2 ^ 44 + double_of 0.3) =
        of_int (5282933469138125 + 5277655813325 * int n + 5277655813325) / 2 ^ 44"
      by (rule step_up_44 [OF refl]) (use n in \<open>simp_all add: double_three_tenths field_simps\<close>)
    then show ?thesis
      using 1 by (simp add: flight_def algebra_simps)
  next
    case 2
    then show ?thesis
      using step_past_512(2) by (simp add: flight_def)
  next
    case 3
    then have n: "706 \<le> real n" "real n \<le> 972" by simp_all
    have "double_of (of_int (4504479236672787 + 2638827906662 * (int n - 706)) / 2 ^ 43 +
          double_of 0.3) =
        of_int (4504479236672787 + 2638827906662 * (int n - 706) + 2638827906662) / 2 ^ 43"
      by (rule step_up_43 [OF refl]) (use n in \<open>simp_all add: double_three_tenths field_simps\<close>)
    then show ?thesis
      using 3 by (cases "n = 972") (simp_all add: flight_def algebra_simps)
  next
    case 4
    then have n: "973 \<le> real n" "real n \<le> 1239" by simp_all
    have "double_of (of_int (5209046287751541 - 2638827906662 * (int n - 973)) / 2 ^ 43 -
          double_of 0.3) =
        of_int (5209046287751541 - 2638827906662 * (int n - 973) - 2638827906662) / 2 ^ 43"
      by (rule step_down_43 [OF refl]) (use n in \<open>simp_all add: double_three_tenths field_simps\<close>)
    then show ?thesis
      using 4 by (simp add: flight_def algebra_simps)
  next
    case 5
    have "double_of (of_int 9008958473345574 / 2 ^ 44 - double_of 0.3) =
        of_int (9008958473345574 - 5277655813325) / 2 ^ 44"
      by (rule step_down_44 [OF refl]) (simp_all add: double_three_tenths)
    then show ?thesis
      using 5 by (simp add: flight_def)
  next
    case 6
    then have n: "1241 \<le> real n" "real n \<le> 1358" using assms by simp_all
    have "double_of (of_int (9003680817532249 - 5277655813325 * (int n - 1241)) / 2 ^ 44 -
          double_of 0.3) =
        of_int (9003680817532249 - 5277655813325 * (int n - 1241) - 5277655813325) / 2 ^ 44"
      by (rule step_down_44 [OF refl]) (use n in \<open>simp_all add: double_three_tenths field_simps\<close>)
    then show ?thesis
      using 6 by (simp add: flight_def algebra_simps)
  qed
qed

lemma flight_x_range:
  assumes "n \<le> 1359"
  shows "400 < ball_x (flight n)" and "ball_x (flight n) \<le> 808"
    and "n \<le> 1000 \<Longrightarrow> ball_x (flight n) \<le> 782"
proof -
  from assms have n: "real n \<le> 1359" by simp
  show "400 < ball_x (flight n)"
    using n by (cases "n < 373") (simp_all add: flight_def field_simps)
  show "ball_x (flight n) \<le> 808"
    using n by (cases "n < 373") (simp_all add: flight_def field_simps)
  show "ball_x (flight n) \<le> 782" if "n \<le> 1000"
  proof -
    from that have "real n \<le> 1000" by simp
    then show ?thesis
      by (cases "n < 373") (simp_all add: flight_def field_simps)
  qed
qed

lemma flight_y_range:
  assumes "n \<le> 1359"
  shows "300 < ball_y (flight n)"
    and "(592 < ball_y (flight n)) = (n = 973)"
    and "1000 \<le> n \<Longrightarrow> 350 \<le> ball_y (flight n)"
proof -
  from assms have n: "real n \<le> 1359" by simp
  consider "n < 706" | "706 \<le> n" "n < 973" | "n = 973" | "974 \<le> n" "n < 1241" | "1241 \<le> n"
    by linarith
  then show "300 < ball_y (flight n)"
  proof cases
    case 1
    then show ?thesis by (simp add: flight_def field_simps)
  next
    case 2
    then have "706 \<le> real n" by simp
    then show ?thesis using 2 by (simp add: flight_def field_simps)
  next
    case 3
    then show ?thesis by (simp add: flight_def)
  next
    case 4
    then have "real n \<le> 1240" by simp
    then show ?thesis using 4 by (simp add: flight_def field_simps)
  next
    case 5
    then show ?thesis using n by (simp add: flight_def field_simps)
  qed
  consider "n < 706" | "706 \<le> n" "n < 973" | "n = 973" | "974 \<le> n" "n < 1241" | "1241 \<le> n"
    by linarith
  then show "(592 < ball_y (flight n)) = (n = 973)"
  proof cases
    case 1
    then have "real n \<le> 705" by simp
    then show ?thesis using 1 by (simp add: flight_def field_simps)
  next
    case 2
    then have "real n \<le> 972" by simp
    then show ?thesis using 2 by (simp add: flight_def field_simps)
  next
    case 3
    then show ?thesis by (simp add: flight_def)
  next
    case 4
    then have "974 \<le> real n" by simp
    then show ?thesis using 4 by (simp add: flight_def field_simps)
  next
    case 5
    then have "1241 \<le> real n" by simp
    then show ?thesis using 5 by (simp add: flight_def field_simps)
  qed
  show "350 \<le> ball_y (flight n)" if "1000 \<le> n"
  proof (cases "n < 1241")
    case True
    then have "real n \<le> 1240" by simp
    then show ?thesis using that True by (simp add: flight_def field_simps)
  next
    case False
    then show ?thesis using n by (simp add: flight_def field_simps)
  qed
qed


lemma createParticles_half:
  "createParticles x y n rnd_half =
     replicate n \<lparr>p_x = x, p_y = y, p_dx = 0, p_dy = 0, p_life = 1\<rparr>"
proof -
  have "(\<lambda>k. rnd_half (k + 2)) = rnd_half"
    by (simp add: rnd_half_def fun_eq_iff)
  then show ?thesis
    by (induction n) (simp_all add: rnd_half_def)
qed

lemma updateParticles_replicate:
  "updateParticles (replicate n p) = (if 0 < p_life (fade p) then replicate n (fade p) else [])"
  by (induction n) simp_all

lemma flight_tests:
  assumes "n < 1359"
  shows "hits_wall (move_ball (move_paddles (flight n))) = (n = 972)"
    and "\<not> hits_paddle (move_ball (move_paddles (flight n)))"
    and "\<not> out_left (move_ball (move_paddles (flight n)))"
    and "\<not> out_right (move_ball (move_paddles (flight n)))"
proof -
  from assms have s: "Suc n \<le> 1359" by simp
  have x: "ball_x (move_ball (move_paddles (flight n))) = ball_x (flight (Suc n))"
    and y: "ball_y (move_ball (move_paddles (flight n))) = ball_y (flight (Suc n))"
    using flight_x [OF assms] flight_y [OF assms] by (simp_all add: move_ball_def)
  have p: "paddle1_y (move_ball (move_paddles (flight n))) = 250"
    "paddle2_y (move_ball (move_paddles (flight n))) = 250"
    by (simp_all add: move_ball_def idle_paddles)
  note r = flight_x_range [OF s] flight_y_range [OF s]
  show "hits_wall (move_ball (move_paddles (flight n))) = (n = 972)"
    unfolding hits_wall_def x y using r(4,5) by (auto simp: geometry_defs)
  show "\<not> hits_paddle (move_ball (move_paddles (flight n)))"
  proof (cases "Suc n \<le> 1000")
    case True
    then show ?thesis
      unfolding hits_paddle_def x y p using r(1) r(3) by (simp add: geometry_defs)
  next
    case False
    then have "350 \<le> ball_y (flight (Suc n))" by (intro r(6)) simp
    then show ?thesis
      unfolding hits_paddle_def x y p using r(1) by (simp add: geometry_defs double_of_nat_small)
  qed
  show "\<not> out_left (move_ball (move_paddles (flight n)))"
    unfolding out_left_def x using r(1) by (simp add: geometry_defs)
  show "\<not> out_right (move_ball (move_paddles (flight n)))"
    unfolding out_right_def x using r(2) by (simp add: geometry_defs)
qed

lemma flight_particles:
  assumes "n \<noteq> 972"
  shows "updateParticles (particles (flight n)) = particles (flight (Suc n))"
proof -
  consider "n < 972" | "973 \<le> n" "n < 1171" | "n = 1171" | "1172 \<le> n"
    using assms by linarith
  then show ?thesis
  proof cases
    case 1
    then show ?thesis by (simp add: flight_def started_def)
  next
    case 2
    then have "real n - 973 < 198" by simp
    then have "0 < 0.99 - 0.005 * (real n - 973)" by simp
    moreover have "real (Suc n - 973) = real n - 973 + 1" "real (n - 973) = real n - 973"
      using 2 by simp_all
    ultimately show ?thesis
      using 2 by (simp add: flight_def updateParticles_replicate fade_def spark_def algebra_simps)
  next
    case 3
    then show ?thesis
      by (simp add: flight_def updateParticles_replicate fade_def spark_def)
  next
    case 4
    then show ?thesis by (simp add: flight_def started_def)
  qed
qed

lemma flight_bounce:
  "updateParticles (particles (flight 972) @
     createParticles (ball_x (flight 973)) (ball_y (flight 973)) 10 rnd_half) =
   particles (flight 973)"
  by (simp add: flight_def started_def createParticles_half updateParticles_replicate fade_def
      spark_def)

lemma update_flight:
  assumes "n < 1359"
  shows "update rnd_half (flight n) =
     (flight (Suc n), if n = 972 then [PlaySound WallHitSound] else [])"
proof (rule prod_eqI)
  note t = flight_tests [OF assms]
  have m: "move_paddles (flight n) = flight n"
    by (rule idle_paddles) simp_all
  show "snd (update rnd_half (flight n)) =
      snd (flight (Suc n), if n = 972 then [PlaySound WallHitSound] else [])"
    by (simp add: update_requests t)
  have "fst (update rnd_half (flight n)) = flight (Suc n)"
  proof (rule loop.equality)
    show "ball_x (fst (update rnd_half (flight n))) = ball_x (flight (Suc n))"
      using flight_x [OF assms] by (simp add: update_ball_x t)
    show "ball_y (fst (update rnd_half (flight n))) = ball_y (flight (Suc n))"
      using flight_y [OF assms] by (simp add: update_ball_y t)
    show "ball_dx (fst (update rnd_half (flight n))) = ball_dx (flight (Suc n))"
      by (simp add: update_ball_dx t)
    show "ball_dy (fst (update rnd_half (flight n))) = ball_dy (flight (Suc n))"
    proof -
      have "ball_dy (fst (update rnd_half (flight n))) =
          (if n = 972 then - ball_dy (flight n) else ball_dy (flight n))"
        by (simp only: update_ball_dy t)
      also have "\<dots> = ball_dy (flight (Suc n))"
        by (auto simp: flight_def)
      finally show ?thesis .
    qed
    show "paddle1_y (fst (update rnd_half (flight n))) = paddle1_y (flight (Suc n))"
      and "paddle2_y (fst (update rnd_half (flight n))) = paddle2_y (flight (Suc n))"
      by (simp_all add: update_paddles m)
    show "keys_w (fst (update rnd_half (flight n))) = keys_w (flight (Suc n))"
      and "keys_s (fst (update rnd_half (flight n))) = keys_s (flight (Suc n))"
      and "keys_ArrowUp (fst (update rnd_half (flight n))) = keys_ArrowUp (flight (Suc n))"
      and "keys_ArrowDown (fst (update rnd_half (flight n))) = keys_ArrowDown (flight (Suc n))"
      by (simp_all add: update_keys)
    show "particles (fst (update rnd_half (flight n))) = particles (flight (Suc n))"
    proof (cases "n = 972")
      case True
      have "double_of (ball_x (flight 972) + double_of 0.3) = ball_x (flight 973)"
        "double_of (ball_y (flight 972) + ball_dy (flight 972)) = ball_y (flight 973)"
        using flight_x [of 972] flight_y [of 972] by simp_all
      then show ?thesis
        using t flight_bounce unfolding True by (simp add: update_particles)
    next
      case False
      then show ?thesis
        using t flight_particles [OF False] by (simp add: update_particles)
    qed
    show "loop.more (fst (update rnd_half (flight n))) = loop.more (flight (Suc n))"
      by simp
  qed
  then show "fst (update rnd_half (flight n)) =
      fst (flight (Suc n), if n = 972 then [PlaySound WallHitSound] else [])"
    by simp
qed

lemma run_frames:
  assumes "\<And>j. j < n \<Longrightarrow>
     fst (update rnd (L j)) = L (Suc j) \<and> \<not> list_ex is_score (snd (update rnd (L j)))"
  shows "run (replicate n (rnd, AnimationFrame)) (playing_with (L 0)) = playing_with (L n)"
  using assms
proof (induction n)
  case 0
  show ?case by simp
next
  case (Suc n)
  have r: "replicate (Suc n) (rnd, AnimationFrame) =
      replicate n (rnd, AnimationFrame) @ [(rnd, AnimationFrame)]"
    by (simp add: replicate_append_same)
  have u: "fst (update rnd (L n)) = L (Suc n)"
    and q: "\<not> list_ex is_score (snd (update rnd (L n)))"
    using Suc.prems by simp_all
  have "run (replicate (Suc n) (rnd, AnimationFrame)) (playing_with (L 0)) =
      step rnd AnimationFrame (playing_with (L n))"
    unfolding r run_snoc using Suc by simp
  also have "\<dots> = playing_with (L (Suc n))"
    using q by (simp add: step_frame_quiet [of _ "L n"] playing_with_def u)
  finally show ?case .
qed

lemma flight_start: "flight 0 = started"
  by (simp add: flight_def started_def)

lemma reach_flight:
  assumes "n \<le> 1359"
  shows "run (untouched n) init_session = playing_with (flight n)"
proof -
  have "run (untouched n) init_session =
      run (replicate n (rnd_half, AnimationFrame)) (playing_with (flight 0))"
    unfolding untouched_def run_append flight_start by (simp only: run_play playing_with_def)
  also have "\<dots> = playing_with (flight n)"
    using assms by (intro run_frames) (simp add: update_flight)
  finally show ?thesis .
qed

lemma flight_states:
  "flight 972 = at_bottom" "flight 973 = bounced" "flight 1305 = passing_right"
  "flight 1359 = gone_right"
  by (simp_all add: flight_def at_bottom_def bounced_def passing_right_def gone_right_def
      started_def fade_def spark_def)

lemma reach_at_bottom: "run (untouched 972) init_session = playing_with at_bottom"
  using reach_flight [of 972] by (simp add: flight_states)

lemma reach_bounced: "run (untouched 973) init_session = playing_with bounced"
  using reach_flight [of 973] by (simp add: flight_states)

lemma reach_passing_right: "run (untouched 1305) init_session = playing_with passing_right"
  using reach_flight [of 1305] by (simp add: flight_states)

lemma reach_gone_right: "run (untouched 1359) init_session = playing_with gone_right"
  using reach_flight [of 1359] by (simp add: flight_states)

subsection \<open>A game in which a key is held\<close>

lemma descent_fields [simp]:
  "ball_x (descent k) = ball_x (flight k)"
  "ball_y (descent k) = ball_y (flight k)"
  "ball_dx (descent k) = double_of 0.3"
  "ball_dy (descent k) = ball_dy (flight k)"
  "particles (descent k) = particles (flight k)"
  "paddle2_y (descent k) = 250"
  "\<not> keys_w (descent k)" "keys_s (descent k)"
  "\<not> keys_ArrowUp (descent k)" "\<not> keys_ArrowDown (descent k)"
  by (simp_all add: descent_def)








subsection \<open>Ball speed\<close>

lemma speed_positive: "0 < double_of 0.3"
  by (simp add: double_three_tenths)

text \<open>
  C10. A frame leaves each velocity component as it was or negates it, except that a
  scoring frame sets the horizontal component to the double \<open>0.3\<close> or to its negative.
  The effect starts the ball with both components the double \<open>0.3\<close>, so in every session
  reachable from the initial one both components of a running loop have that magnitude.
  The velocity is never the result of a rounded sum.
\<close>

theorem ball_speed_constant:
  "(if list_ex is_score (snd (update rnd l))
    then ball_dx (fst (update rnd l)) = double_of 0.3 \<or>
         ball_dx (fst (update rnd l)) = - double_of 0.3
    else ball_dx (fst (update rnd l)) = ball_dx l \<or> ball_dx (fst (update rnd l)) = - ball_dx l) \<and>
   (ball_dy (fst (update rnd l)) = ball_dy l \<or> ball_dy (fst (update rnd l)) = - ball_dy l) \<and>
   ball_dx init_loop = double_of 0.3 \<and> ball_dy init_loop = double_of 0.3 \<and>
   (\<forall>ins l'. running (run ins init_session) = Some l' \<longrightarrow>
      \<bar>ball_dx l'\<bar> = double_of 0.3 \<and> \<bar>ball_dy l'\<bar> = double_of 0.3) \<and>
   double_of 0.3 = 5404319552844595 / 2 ^ 54"
proof -
  let ?P = "\<lambda>l. \<bar>ball_dx l\<bar> = double_of 0.3 \<and> \<bar>ball_dy l\<bar> = double_of 0.3"
  note p = speed_positive
  have a: "?P started" using p by (simp add: started_def)
  have b: "?P (fst (update rnd l))" if "?P l" for rnd l
    using that p by (simp add: update_ball_dx update_ball_dy)
  have c: "?P (set_key k b l)" if "?P l" for k b l
    using that by simp
  have reach: "\<forall>ins l'. running (run ins init_session) = Some l' \<longrightarrow> ?P l'"
  proof (intro allI impI)
    fix ins l' assume r: "running (run ins init_session) = Some l'"
    show "?P l'" by (rule reachable_invariant [of ?P, OF a b c r])
  qed
  have dx: "if list_ex is_score (snd (update rnd l))
    then ball_dx (fst (update rnd l)) = double_of 0.3 \<or>
         ball_dx (fst (update rnd l)) = - double_of 0.3
    else ball_dx (fst (update rnd l)) = ball_dx l \<or> ball_dx (fst (update rnd l)) = - ball_dx l"
    by (simp add: scored_iff update_ball_dx)
  have dy: "ball_dy (fst (update rnd l)) = ball_dy l \<or> ball_dy (fst (update rnd l)) = - ball_dy l"
    by (simp add: update_ball_dy)
  have i: "ball_dx init_loop = double_of 0.3" "ball_dy init_loop = double_of 0.3"
    by (simp_all add: init_loop_def)
  show ?thesis
    by (intro conjI) (fact dx dy i reach double_three_tenths)+
qed

theorem ball_speed_constant_witness:
  "running (run (untouched 973) init_session) = Some bounced \<and>
   ball_dx bounced = 5404319552844595 / 2 ^ 54 \<and>
   ball_dy bounced = - (5404319552844595 / 2 ^ 54) \<and>
   \<bar>ball_dx bounced\<bar> = double_of 0.3 \<and> \<bar>ball_dy bounced\<bar> = double_of 0.3"
proof -
  have r: "running (run (untouched 973) init_session) = Some bounced"
    by (simp add: reach_bounced playing_with_def)
  have v: "ball_dx bounced = 5404319552844595 / 2 ^ 54"
    "ball_dy bounced = - (5404319552844595 / 2 ^ 54)"
    by (simp_all add: bounced_def started_def double_three_tenths)
  from ball_speed_constant [of rnd_half started] r
  have "\<bar>ball_dx bounced\<bar> = double_of 0.3 \<and> \<bar>ball_dy bounced\<bar> = double_of 0.3"
    by blast
  with r v show ?thesis by blast
qed

subsection \<open>Particles\<close>

lemma createParticles_life: "map p_life (createParticles x y n rnd) = replicate n 1"
  by (induction n arbitrary: rnd) simp_all

lemma createParticles_length [simp]: "length (createParticles x y n rnd) = n"
  by (induction n arbitrary: rnd) simp_all

lemma updateParticles_filter:
  "updateParticles ps = filter (\<lambda>q. 0 < p_life q) (map fade ps)"
  by (induction ps) simp_all

lemma updateParticles_append [simp]:
  "updateParticles (ps @ qs) = updateParticles ps @ updateParticles qs"
  by (simp add: updateParticles_filter)

lemma createParticles_set_life: "q \<in> set (createParticles x y n rnd) \<Longrightarrow> p_life q = 1"
  by (induction n arbitrary: rnd) auto

lemma alive_updateParticles:
  assumes "\<And>p. p \<in> set ps \<Longrightarrow> p_life p \<le> 1" and "q \<in> set (updateParticles ps)"
  shows "alive q"
proof -
  from assms(2) obtain p where p: "p \<in> set ps" "q = fade p" "0 < p_life q"
    by (auto simp: updateParticles_filter)
  from assms(1) [OF p(1)] have "p_life (fade p) \<le> 1" by (simp add: fade_def)
  with p show ?thesis by (simp add: alive_def)
qed

lemma alive_update:
  assumes old: "\<And>p. p \<in> set (particles l) \<Longrightarrow> alive p"
    and q: "q \<in> set (particles (fst (update rnd l)))"
  shows "alive q"
proof -
  define new where "new =
       (if hits_wall (move_ball (move_paddles l))
        then createParticles (double_of (ball_x l + ball_dx l))
               (double_of (ball_y l + ball_dy l)) 10 rnd
        else []) @
       (if hits_paddle (move_ball (move_paddles l))
        then createParticles (double_of (ball_x l + ball_dx l))
               (double_of (ball_y l + ball_dy l)) 15
               (if hits_wall (move_ball (move_paddles l)) then (\<lambda>k. rnd (k + 20)) else rnd)
        else [])"
  have new: "p_life p \<le> 1" if "p \<in> set new" for p
    using that createParticles_set_life [of p] by (auto simp: new_def split: if_splits)
  have "particles (fst (update rnd l)) = updateParticles (particles l @ new)"
    by (simp only: update_particles new_def)
  with q have "q \<in> set (updateParticles (particles l @ new))" by simp
  moreover have "p_life p \<le> 1" if "p \<in> set (particles l @ new)" for p
    using that old [of p] new [of p] by (auto simp: alive_def)
  ultimately show ?thesis by (rule alive_updateParticles [rotated])
qed

text \<open>
  C9. Every spawned particle has life \<open>1\<close>. An advance moves a particle by its velocity
  and lowers its life by \<open>0.005\<close>; it drops the particle exactly when the lowered life
  is not positive. So after any advance, and after two, every particle has positive life;
  lives that were at most \<open>1\<close> stay so; and every particle of every reachable running
  loop is alive.
\<close>

theorem particle_lifecycle:
  "map p_life (createParticles x y n rnd) = replicate n 1 \<and>
   p_x (fade p) = p_x p + p_dx p \<and> p_y (fade p) = p_y p + p_dy p \<and>
   p_dx (fade p) = p_dx p \<and> p_dy (fade p) = p_dy p \<and>
   p_life (fade p) = p_life p - 0.005 \<and> p_life (fade p) < p_life p \<and>
   updateParticles ps = filter (\<lambda>q. 0 < p_life q) (map fade ps) \<and>
   updateParticles [p] = (if p_life p - 0.005 \<le> 0 then [] else [fade p]) \<and>
   (\<forall>q \<in> set (updateParticles ps). 0 < p_life q) \<and>
   (\<forall>q \<in> set (updateParticles (updateParticles ps)). 0 < p_life q) \<and>
   ((\<forall>q \<in> set ps. p_life q \<le> 1) \<longrightarrow> (\<forall>q \<in> set (updateParticles ps). alive q)) \<and>
   (\<forall>ins l. running (run ins init_session) = Some l \<longrightarrow> (\<forall>q \<in> set (particles l). alive q))"
proof -
  let ?P = "\<lambda>l. \<forall>q \<in> set (particles l). alive q"
  have a: "?P started" by (simp add: started_def)
  have b: "?P (fst (update rnd l))" if "?P l" for rnd l
  proof
    fix q assume "q \<in> set (particles (fst (update rnd l)))"
    with that show "alive q" by (intro alive_update [of l q rnd]) simp_all
  qed
  have c: "?P (set_key k b l)" if "?P l" for k b l
    using that by simp
  have reach: "\<forall>ins l. running (run ins init_session) = Some l \<longrightarrow> ?P l"
  proof (intro allI impI)
    fix ins l assume r: "running (run ins init_session) = Some l"
    show "?P l" by (rule reachable_invariant [of ?P, OF a b c r])
  qed
  have pos: "\<forall>q \<in> set (updateParticles qs). 0 < p_life q" for qs
    by (simp add: updateParticles_filter)
  have le: "(\<forall>q \<in> set ps. p_life q \<le> 1) \<longrightarrow> (\<forall>q \<in> set (updateParticles ps). alive q)"
  proof (intro impI ballI)
    fix q assume "\<forall>q \<in> set ps. p_life q \<le> 1" "q \<in> set (updateParticles ps)"
    then show "alive q" by (intro alive_updateParticles [of ps q]) simp_all
  qed
  have one: "updateParticles [p] = (if p_life p - 0.005 \<le> 0 then [] else [fade p])"
    by (simp add: fade_def)
  have m1: "p_x (fade p) = p_x p + p_dx p" and m2: "p_y (fade p) = p_y p + p_dy p"
    and m3: "p_dx (fade p) = p_dx p" and m4: "p_dy (fade p) = p_dy p"
    and m5: "p_life (fade p) = p_life p - 0.005" and m6: "p_life (fade p) < p_life p"
    by (simp_all add: fade_def)
  show ?thesis
    by (intro conjI)
       (fact createParticles_life m1 m2 m3 m4 m5 m6 updateParticles_filter one pos le reach)+
qed

theorem particle_lifecycle_witness:
  "createParticles (6088655589972175 / 2 ^ 43) (5209046287751541 / 2 ^ 43) 1 rnd_half = [spark] \<and>
   p_life spark \<le> 1 \<and>
   updateParticles [spark] = [fade spark] \<and> alive (fade spark) \<and>
   p_life (fade spark) = 0.995 \<and>
   running (run (untouched 973) init_session) = Some bounced \<and>
   particles bounced = replicate 10 (fade spark) \<and>
   alive (spark\<lparr>p_life := 0.995\<rparr>)"
proof -
  have r: "running (run (untouched 973) init_session) = Some bounced"
    by (simp add: reach_bounced playing_with_def)
  have ps: "particles bounced = replicate 10 (fade spark)"
    and ps': "particles bounced = replicate 10 (spark\<lparr>p_life := 0.995\<rparr>)"
    by (simp_all add: bounced_def fade_def spark_def)
  have c: "createParticles (6088655589972175 / 2 ^ 43) (5209046287751541 / 2 ^ 43) 1 rnd_half =
      [spark]"
    by (simp add: spark_def rnd_half_def)
  have u: "updateParticles [spark] = [fade spark]" and le: "p_life spark \<le> 1"
    and f: "p_life (fade spark) = 0.995"
    by (simp_all add: spark_def fade_def)
  note t = particle_lifecycle [of 0 0 0 rnd_half spark "[spark]"]
  from le have "\<forall>q \<in> set [spark]. p_life q \<le> 1" by simp
  with t have "\<forall>q \<in> set (updateParticles [spark]). alive q" by blast
  with u have a: "alive (fade spark)" by simp
  from t r have "\<forall>q \<in> set (particles bounced). alive q" by blast
  then have a': "alive (spark\<lparr>p_life := 0.995\<rparr>)"
    unfolding ps' by simp
  from c le u a f r ps a' show ?thesis by (intro conjI)
qed


subsection \<open>Wall bounces\<close>

lemma updateParticles_new:
  "updateParticles (createParticles x y n rnd) = map fade (createParticles x y n rnd)"
  by (induction n arbitrary: rnd) (simp_all add: fade_def)

lemma createParticles_map:
  "createParticles x y n rnd =
     map (\<lambda>i. \<lparr>p_x = x, p_y = y, p_dx = (rnd (2 * i) - 0.5) * 0.2,
                p_dy = (rnd (2 * i + 1) - 0.5) * 0.2, p_life = 1\<rparr>) [0..<n]"
proof (induction n arbitrary: rnd)
  case 0
  show ?case by simp
next
  case (Suc n)
  show ?case
    unfolding createParticles.simps Suc map_upt_Suc by (simp add: add.commute)
qed

text \<open>
  The rounded steps at the walls: one step beyond the bottom wall and back, one step
  beyond the top wall and back.
\<close>

lemma wall_steps:
  "double_of (592 + double_of 0.3) = 5209925897053798 / 2 ^ 43"
  "double_of (5209925897053798 / 2 ^ 43 - double_of 0.3) = 592"
  "double_of (8 - double_of 0.3) = 8669429282688205 / 2 ^ 50"
  "double_of (8669429282688205 / 2 ^ 50 + double_of 0.3) = 8"
proof -
  have "double_of (592 + double_of 0.3) = of_int (5207287069147136 + 2638827906662) / 2 ^ 43"
    by (rule step_up_43) (simp_all add: double_three_tenths)
  then show "double_of (592 + double_of 0.3) = 5209925897053798 / 2 ^ 43"
    by simp
  have "double_of (of_int 5209925897053798 / 2 ^ 43 - double_of 0.3) =
      of_int (5209925897053798 - 2638827906662) / 2 ^ 43"
    by (rule step_down_43 [OF refl]) (simp_all add: double_three_tenths)
  then show "double_of (5209925897053798 / 2 ^ 43 - double_of 0.3) = 592"
    by simp
  have "double_of (8 - 5404319552844595 / 2 ^ 54) = of_int 8669429282688205 * 2 powi (2 - 52)"
    by (rule double_of_grid [where r = "- 3 / 16"]) (simp_all add: power_int_minus)
  then show "double_of (8 - double_of 0.3) = 8669429282688205 / 2 ^ 50"
    by (simp add: double_three_tenths power_int_minus)
  have "double_of (8669429282688205 / 2 ^ 50 + 5404319552844595 / 2 ^ 54) =
      of_int 4503599627370496 * 2 powi (3 - 52)"
    by (rule double_of_grid [where r = "3 / 32"]) (simp_all add: power_int_minus)
  then show "double_of (8669429282688205 / 2 ^ 50 + double_of 0.3) = 8"
    by (simp add: double_three_tenths power_int_minus)
qed

lemma inside_step:
  assumes "8 \<le> y" and "y \<le> 592" and "\<bar>d\<bar> = double_of 0.3"
  shows "double_of (8 - double_of 0.3) \<le> double_of (y + d)"
    and "double_of (y + d) \<le> double_of (592 + double_of 0.3)"
    and "592 < double_of (y + d) \<Longrightarrow> 0 < d"
    and "double_of (y + d) < 8 \<Longrightarrow> d < 0"
proof -
  note p = speed_positive
  show "double_of (8 - double_of 0.3) \<le> double_of (y + d)"
    using assms by (intro double_of_mono) (simp add: abs_if split: if_splits)
  show "double_of (y + d) \<le> double_of (592 + double_of 0.3)"
    using assms by (intro double_of_mono) (simp add: abs_if split: if_splits)
  show "0 < d" if "592 < double_of (y + d)"
  proof (rule ccontr)
    assume "\<not> 0 < d"
    then have "double_of (y + d) \<le> double_of 592"
      using assms by (intro double_of_mono) simp
    with that show False by (simp add: double_of_nat_small)
  qed
  show "d < 0" if "double_of (y + d) < 8"
  proof (rule ccontr)
    assume "\<not> d < 0"
    then have "double_of 8 \<le> double_of (y + d)"
      using assms by (intro double_of_mono) simp
    with that show False by (simp add: double_of_nat_small)
  qed
qed

lemma way_back:
  "592 < y \<Longrightarrow> y \<le> double_of (592 + double_of 0.3) \<Longrightarrow>
   8 \<le> double_of (y - double_of 0.3) \<and> double_of (y - double_of 0.3) \<le> 592"
  "y < 8 \<Longrightarrow> double_of (8 - double_of 0.3) \<le> y \<Longrightarrow>
   8 \<le> double_of (y + double_of 0.3) \<and> double_of (y + double_of 0.3) \<le> 592"
proof -
  show "8 \<le> double_of (y - double_of 0.3) \<and> double_of (y - double_of 0.3) \<le> 592"
    if "592 < y" "y \<le> double_of (592 + double_of 0.3)"
  proof
    have "double_of 8 \<le> double_of (y - double_of 0.3)"
      using that by (intro double_of_mono) (simp add: double_three_tenths)
    then show "8 \<le> double_of (y - double_of 0.3)"
      by (simp add: double_of_nat_small)
    have "double_of (y - double_of 0.3) \<le>
        double_of (double_of (592 + double_of 0.3) - double_of 0.3)"
      using that by (intro double_of_mono) simp
    then show "double_of (y - double_of 0.3) \<le> 592"
      by (simp only: wall_steps)
  qed
  show "8 \<le> double_of (y + double_of 0.3) \<and> double_of (y + double_of 0.3) \<le> 592"
    if "y < 8" "double_of (8 - double_of 0.3) \<le> y"
  proof
    have "double_of (double_of (8 - double_of 0.3) + double_of 0.3) \<le>
        double_of (y + double_of 0.3)"
      using that by (intro double_of_mono) simp
    then show "8 \<le> double_of (y + double_of 0.3)"
      by (simp only: wall_steps)
    have "double_of (y + double_of 0.3) \<le> double_of 592"
      using that by (intro double_of_mono) (simp add: double_three_tenths)
    then show "double_of (y + double_of 0.3) \<le> 592"
      by (simp add: double_of_nat_small)
  qed
qed

lemma heading_back_move:
  assumes "heading_back l"
  shows "double_of (8 - double_of 0.3) \<le> double_of (ball_y l + ball_dy l)"
    and "double_of (ball_y l + ball_dy l) \<le> double_of (592 + double_of 0.3)"
    and "592 < double_of (ball_y l + ball_dy l) \<Longrightarrow> 0 < ball_dy l"
    and "double_of (ball_y l + ball_dy l) < 8 \<Longrightarrow> ball_dy l < 0"
    and "592 < ball_y l \<or> ball_y l < 8 \<Longrightarrow>
         8 \<le> double_of (ball_y l + ball_dy l) \<and> double_of (ball_y l + ball_dy l) \<le> 592"
proof -
  note p = speed_positive
  have d: "\<bar>ball_dy l\<bar> = double_of 0.3"
    using assms by (simp add: heading_back_def)
  have lo: "double_of (8 - double_of 0.3) \<le> 8"
    and hi: "592 \<le> double_of (592 + double_of 0.3)"
    by (simp_all add: wall_steps)
  consider (top) "592 < ball_y l" | (bottom) "ball_y l < 8" | (inside) "8 \<le> ball_y l" "ball_y l \<le> 592"
    by linarith
  then have "double_of (8 - double_of 0.3) \<le> double_of (ball_y l + ball_dy l) \<and>
      double_of (ball_y l + ball_dy l) \<le> double_of (592 + double_of 0.3) \<and>
      (592 < double_of (ball_y l + ball_dy l) \<longrightarrow> 0 < ball_dy l) \<and>
      (double_of (ball_y l + ball_dy l) < 8 \<longrightarrow> ball_dy l < 0) \<and>
      (592 < ball_y l \<or> ball_y l < 8 \<longrightarrow>
         8 \<le> double_of (ball_y l + ball_dy l) \<and> double_of (ball_y l + ball_dy l) \<le> 592)"
  proof cases
    case top
    with assms d have "ball_dy l = - double_of 0.3"
      and "ball_y l \<le> double_of (592 + double_of 0.3)"
      using p by (simp_all add: heading_back_def geometry_defs abs_if split: if_splits)
    with way_back(1) [OF top] lo hi show ?thesis by simp
  next
    case bottom
    with assms d have "ball_dy l = double_of 0.3"
      and "double_of (8 - double_of 0.3) \<le> ball_y l"
      using p by (simp_all add: heading_back_def geometry_defs abs_if split: if_splits)
    with way_back(2) [OF bottom] lo hi show ?thesis by simp
  next
    case inside
    with inside_step [OF inside d] show ?thesis by simp
  qed
  then show "double_of (8 - double_of 0.3) \<le> double_of (ball_y l + ball_dy l)"
    and "double_of (ball_y l + ball_dy l) \<le> double_of (592 + double_of 0.3)"
    and "592 < double_of (ball_y l + ball_dy l) \<Longrightarrow> 0 < ball_dy l"
    and "double_of (ball_y l + ball_dy l) < 8 \<Longrightarrow> ball_dy l < 0"
    and "592 < ball_y l \<or> ball_y l < 8 \<Longrightarrow>
         8 \<le> double_of (ball_y l + ball_dy l) \<and> double_of (ball_y l + ball_dy l) \<le> 592"
    by blast+
qed

lemma wall_test:
  "hits_wall (move_ball (move_paddles l)) \<longleftrightarrow>
     592 < double_of (ball_y l + ball_dy l) \<or> double_of (ball_y l + ball_dy l) < 8"
  by (auto simp: hits_wall_def move_ball_def geometry_defs)

lemma heading_back_update:
  assumes "heading_back l"
  shows "heading_back (fst (update rnd l))"
proof -
  note m = heading_back_move [OF assms]
  have d: "\<bar>ball_dy l\<bar> = double_of 0.3"
    using assms by (simp add: heading_back_def)
  show ?thesis
  proof (cases "out_left (move_ball (move_paddles l)) \<or> out_right (move_ball (move_paddles l))")
    case True
    then show ?thesis
      using d by (simp add: heading_back_def update_ball_y update_ball_dy geometry_defs)
  next
    case False
    then show ?thesis
      using d m(1-4)
      by (simp add: heading_back_def update_ball_y update_ball_dy wall_test geometry_defs)
  qed
qed

lemma no_second_flip:
  assumes "heading_back l" and "hits_wall (move_ball (move_paddles l))"
    and "ball_y l2 = ball_y (fst (update rnd l))" and "ball_dy l2 = ball_dy (fst (update rnd l))"
  shows "\<not> hits_wall (move_ball (move_paddles l2))"
proof -
  have h: "heading_back l2"
    using heading_back_update [OF assms(1), of rnd] assms(3,4) by (simp add: heading_back_def)
  show ?thesis
  proof (cases "out_left (move_ball (move_paddles l)) \<or> out_right (move_ball (move_paddles l))")
    case True
    then have y: "ball_y l2 = 300"
      using assms(3) by (simp add: update_ball_y geometry_defs)
    have d: "\<bar>ball_dy l2\<bar> = double_of 0.3"
      using h by (simp add: heading_back_def)
    have "double_of 8 \<le> double_of (300 + ball_dy l2)"
      using d by (intro double_of_mono) (simp add: double_three_tenths abs_if split: if_splits)
    moreover have "double_of (300 + ball_dy l2) \<le> double_of 592"
      using d by (intro double_of_mono) (simp add: double_three_tenths abs_if split: if_splits)
    ultimately show ?thesis
      by (simp add: wall_test y double_of_nat_small)
  next
    case False
    then have "ball_y l2 = double_of (ball_y l + ball_dy l)"
      using assms(3) by (simp add: update_ball_y)
    with assms(2) have "592 < ball_y l2 \<or> ball_y l2 < 8"
      by (simp add: wall_test)
    from heading_back_move(5) [OF h this] show ?thesis
      by (simp add: wall_test)
  qed
qed

lemma wall_requests:
  "filter (\<lambda>q. q = PlaySound WallHitSound) (snd (update rnd l)) =
     (if hits_wall (move_ball (move_paddles l)) then [PlaySound WallHitSound] else [])"
  by (simp add: update_requests)

lemma wall_burst:
  "hits_wall (move_ball (move_paddles l)) \<Longrightarrow>
   particles (fst (update rnd l)) =
     updateParticles (particles l) @
     map fade (createParticles (ball_x (move_ball (move_paddles l)))
                 (ball_y (move_ball (move_paddles l))) 10 rnd) @
     (if hits_paddle (move_ball (move_paddles l))
      then map fade (createParticles (ball_x (move_ball (move_paddles l)))
                       (ball_y (move_ball (move_paddles l))) 15 (\<lambda>k. rnd (k + 20)))
      else [])"
  by (simp add: update_particles updateParticles_new move_ball_def)


text \<open>
  C7. Every running loop of a reachable session satisfies \<open>heading_back\<close>. From such a
  state, a frame in which the ball's top or bottom edge is beyond the wall after the move
  negates the vertical velocity once (the new value differs from the old), requests the
  wall-hit sound once and appends ten particles, which the same frame's advance then
  moves. Each of the ten is created at the position the ball has after the frame's move,
  which is where the frame leaves the ball unless it also scores, with life \<open>1\<close> and
  the velocity drawn for it. The next frame, whatever the keys, does not find the ball
  beyond the wall again. A frame without such a touch leaves the vertical velocity as it
  was and requests no wall-hit sound.
\<close>

theorem wall_bounce_once:
  "(\<forall>ins l. running (run ins init_session) = Some l \<longrightarrow> heading_back l) \<and>
   (heading_back l \<longrightarrow>
      heading_back (fst (update rnd l)) \<and>
      (if hits_wall (move_ball (move_paddles l))
       then ball_dy (fst (update rnd l)) = - ball_dy l \<and>
            ball_dy (fst (update rnd l)) \<noteq> ball_dy l \<and>
            filter (\<lambda>q. q = PlaySound WallHitSound) (snd (update rnd l)) =
              [PlaySound WallHitSound] \<and>
            particles (fst (update rnd l)) =
              updateParticles (particles l) @
              map fade (createParticles (ball_x (move_ball (move_paddles l)))
                          (ball_y (move_ball (move_paddles l))) 10 rnd) @
              (if hits_paddle (move_ball (move_paddles l))
               then map fade (createParticles (ball_x (move_ball (move_paddles l)))
                                (ball_y (move_ball (move_paddles l))) 15 (\<lambda>k. rnd (k + 20)))
               else []) \<and>
            createParticles (ball_x (move_ball (move_paddles l)))
              (ball_y (move_ball (move_paddles l))) 10 rnd =
              map (\<lambda>i. \<lparr>p_x = ball_x (move_ball (move_paddles l)),
                         p_y = ball_y (move_ball (move_paddles l)),
                         p_dx = (rnd (2 * i) - 0.5) * 0.2,
                         p_dy = (rnd (2 * i + 1) - 0.5) * 0.2, p_life = 1\<rparr>) [0..<10] \<and>
            (\<not> list_ex is_score (snd (update rnd l)) \<longrightarrow>
               ball_x (fst (update rnd l)) = ball_x (move_ball (move_paddles l)) \<and>
               ball_y (fst (update rnd l)) = ball_y (move_ball (move_paddles l))) \<and>
            (\<forall>l2. ball_y l2 = ball_y (fst (update rnd l)) \<and>
                  ball_dy l2 = ball_dy (fst (update rnd l)) \<longrightarrow>
                  \<not> hits_wall (move_ball (move_paddles l2)))
       else ball_dy (fst (update rnd l)) = ball_dy l \<and>
            filter (\<lambda>q. q = PlaySound WallHitSound) (snd (update rnd l)) = []))"
proof -
  have a: "heading_back started"
    using speed_positive by (simp add: heading_back_def started_def geometry_defs)
  have b: "heading_back (fst (update rnd l))" if "heading_back l" for rnd l
    using that by (rule heading_back_update)
  have c: "heading_back (set_key k b l)" if "heading_back l" for k b l
    using that by (simp add: heading_back_def)
  have reach: "\<forall>ins l. running (run ins init_session) = Some l \<longrightarrow> heading_back l"
  proof (intro allI impI)
    fix ins l assume r: "running (run ins init_session) = Some l"
    show "heading_back l" by (rule reachable_invariant [of heading_back, OF a b c r])
  qed
  have frame: "heading_back (fst (update rnd l)) \<and>
      (if hits_wall (move_ball (move_paddles l))
       then ball_dy (fst (update rnd l)) = - ball_dy l \<and>
            ball_dy (fst (update rnd l)) \<noteq> ball_dy l \<and>
            filter (\<lambda>q. q = PlaySound WallHitSound) (snd (update rnd l)) =
              [PlaySound WallHitSound] \<and>
            particles (fst (update rnd l)) =
              updateParticles (particles l) @
              map fade (createParticles (ball_x (move_ball (move_paddles l)))
                          (ball_y (move_ball (move_paddles l))) 10 rnd) @
              (if hits_paddle (move_ball (move_paddles l))
               then map fade (createParticles (ball_x (move_ball (move_paddles l)))
                                (ball_y (move_ball (move_paddles l))) 15 (\<lambda>k. rnd (k + 20)))
               else []) \<and>
            createParticles (ball_x (move_ball (move_paddles l)))
              (ball_y (move_ball (move_paddles l))) 10 rnd =
              map (\<lambda>i. \<lparr>p_x = ball_x (move_ball (move_paddles l)),
                         p_y = ball_y (move_ball (move_paddles l)),
                         p_dx = (rnd (2 * i) - 0.5) * 0.2,
                         p_dy = (rnd (2 * i + 1) - 0.5) * 0.2, p_life = 1\<rparr>) [0..<10] \<and>
            (\<not> list_ex is_score (snd (update rnd l)) \<longrightarrow>
               ball_x (fst (update rnd l)) = ball_x (move_ball (move_paddles l)) \<and>
               ball_y (fst (update rnd l)) = ball_y (move_ball (move_paddles l))) \<and>
            (\<forall>l2. ball_y l2 = ball_y (fst (update rnd l)) \<and>
                  ball_dy l2 = ball_dy (fst (update rnd l)) \<longrightarrow>
                  \<not> hits_wall (move_ball (move_paddles l2)))
       else ball_dy (fst (update rnd l)) = ball_dy l \<and>
            filter (\<lambda>q. q = PlaySound WallHitSound) (snd (update rnd l)) = [])"
    if inv: "heading_back l"
  proof (cases "hits_wall (move_ball (move_paddles l))")
    case True
    from inv have nz: "ball_dy l \<noteq> 0"
      using speed_positive by (auto simp: heading_back_def)
    have flip: "ball_dy (fst (update rnd l)) = - ball_dy l"
      using True by (simp add: update_ball_dy)
    have pos: "\<not> list_ex is_score (snd (update rnd l)) \<longrightarrow>
        ball_x (fst (update rnd l)) = ball_x (move_ball (move_paddles l)) \<and>
        ball_y (fst (update rnd l)) = ball_y (move_ball (move_paddles l))"
      by (simp add: scored_iff update_ball_x update_ball_y move_ball_def)
    have again: "\<forall>l2. ball_y l2 = ball_y (fst (update rnd l)) \<and>
                  ball_dy l2 = ball_dy (fst (update rnd l)) \<longrightarrow>
                  \<not> hits_wall (move_ball (move_paddles l2))"
      using no_second_flip [OF inv True] by blast
    have ne: "ball_dy (fst (update rnd l)) \<noteq> ball_dy l"
      using flip nz by simp
    have rq: "filter (\<lambda>q. q = PlaySound WallHitSound) (snd (update rnd l)) =
        [PlaySound WallHitSound]"
      using True by (simp add: wall_requests)
    show ?thesis
      unfolding if_P [OF True]
      by (intro conjI) (fact b [OF inv] flip ne rq wall_burst [OF True] createParticles_map
          pos again)+
  next
    case False
    then show ?thesis
      using b [OF inv] by (simp add: update_ball_dy wall_requests)
  qed
  from reach frame show ?thesis by blast
qed

theorem wall_bounce_once_witness:
  "running (run (untouched 972) init_session) = Some at_bottom \<and>
   heading_back at_bottom \<and>
   hits_wall (move_ball (move_paddles at_bottom)) \<and>
   ball_dy at_bottom = 5404319552844595 / 2 ^ 54 \<and>
   ball_dy (fst (update rnd_half at_bottom)) = - (5404319552844595 / 2 ^ 54) \<and>
   ball_x (fst (update rnd_half at_bottom)) = 6088655589972175 / 2 ^ 43 \<and>
   ball_y (fst (update rnd_half at_bottom)) = 5209046287751541 / 2 ^ 43 \<and>
   snd (update rnd_half at_bottom) = [PlaySound WallHitSound] \<and>
   particles (fst (update rnd_half at_bottom)) =
     replicate 10 \<lparr>p_x = 6088655589972175 / 2 ^ 43, p_y = 5209046287751541 / 2 ^ 43,
                   p_dx = 0, p_dy = 0, p_life = 0.995\<rparr> \<and>
   \<not> hits_wall (move_ball (move_paddles (fst (update rnd_half at_bottom))))"
proof -
  have r: "running (run (untouched 972) init_session) = Some at_bottom"
    by (simp add: reach_at_bottom playing_with_def)
  have u: "update rnd_half at_bottom = (bounced, [PlaySound WallHitSound])"
    using update_flight [of 972] by (simp add: flight_states)
  have hit: "hits_wall (move_ball (move_paddles at_bottom))"
    using flight_tests(1) [of 972] by (simp add: flight_states)
  have vals: "ball_dy at_bottom = 5404319552844595 / 2 ^ 54"
    "ball_x bounced = 6088655589972175 / 2 ^ 43" "ball_y bounced = 5209046287751541 / 2 ^ 43"
    "particles bounced =
       replicate 10 \<lparr>p_x = 6088655589972175 / 2 ^ 43, p_y = 5209046287751541 / 2 ^ 43,
                     p_dx = 0, p_dy = 0, p_life = 0.995\<rparr>"
    by (simp_all add: at_bottom_def bounced_def started_def double_three_tenths fade_def
        spark_def)
  from wall_bounce_once [of at_bottom rnd_half] r
  have hb: "heading_back at_bottom"
    by blast
  from wall_bounce_once [of at_bottom rnd_half] hb hit
  have dy: "ball_dy (fst (update rnd_half at_bottom)) = - ball_dy at_bottom"
    and nx: "\<forall>l2. ball_y l2 = ball_y (fst (update rnd_half at_bottom)) \<and>
                  ball_dy l2 = ball_dy (fst (update rnd_half at_bottom)) \<longrightarrow>
                  \<not> hits_wall (move_ball (move_paddles l2))"
    by simp_all
  from nx have nx': "\<not> hits_wall (move_ball (move_paddles (fst (update rnd_half at_bottom))))"
    by blast
  from dy have dy': "ball_dy (fst (update rnd_half at_bottom)) = - (5404319552844595 / 2 ^ 54)"
    by (simp only: vals(1))
  have x: "ball_x (fst (update rnd_half at_bottom)) = 6088655589972175 / 2 ^ 43"
    and y: "ball_y (fst (update rnd_half at_bottom)) = 5209046287751541 / 2 ^ 43"
    and rq: "snd (update rnd_half at_bottom) = [PlaySound WallHitSound]"
    and ps: "particles (fst (update rnd_half at_bottom)) =
       replicate 10 \<lparr>p_x = 6088655589972175 / 2 ^ 43, p_y = 5209046287751541 / 2 ^ 43,
                     p_dx = 0, p_dy = 0, p_life = 0.995\<rparr>"
    by (simp_all only: u fst_conv snd_conv vals)
  from r hb hit vals(1) dy' x y rq ps nx' show ?thesis by (intro conjI)
qed


subsection \<open>Paddle range\<close>












subsection \<open>Detection of a crossing\<close>

lemma left_exit:
  assumes "ball_x l = - 8" and "ball_dx l = - double_of 0.3"
  shows "double_of (ball_x l + ball_dx l) + ball_radius < 0"
    and "out_left (move_ball (move_paddles l))"
proof -
  have "double_of (33 / 4) = 33 / 4"
    by (rule double_of_exact [of 3 _ "33 * 2 ^ 47"]) (simp_all add: power_int_minus)
  then have "double_of (- (33 / 4)) = - (33 / 4)"
    by (simp only: double_of_minus)
  moreover have "double_of (ball_x l + ball_dx l) \<le> double_of (- (33 / 4))"
    by (rule double_of_mono) (simp add: assms double_three_tenths)
  ultimately show "double_of (ball_x l + ball_dx l) + ball_radius < 0"
    by (simp add: ball_radius_def)
  then show "out_left (move_ball (move_paddles l))"
    by (simp add: out_tests)
qed

lemma right_exit:
  "double_of (ball_x gone_right + ball_dx gone_right) = 7109881989850369 / 2 ^ 43"
  "canvas_width < double_of (ball_x gone_right + ball_dx gone_right) - ball_radius"
  "out_right (move_ball (move_paddles gone_right))"
proof -
  have "double_of (of_int 7107243161943707 / 2 ^ 43 + double_of 0.3) =
      of_int (7107243161943707 + 2638827906662) / 2 ^ 43"
    by (rule step_up_43 [OF refl]) (simp_all add: double_three_tenths)
  then show a: "double_of (ball_x gone_right + ball_dx gone_right) = 7109881989850369 / 2 ^ 43"
    by (simp add: gone_right_def started_def)
  show b: "canvas_width < double_of (ball_x gone_right + ball_dx gone_right) - ball_radius"
    unfolding a by (simp add: geometry_defs)
  then show "out_right (move_ball (move_paddles gone_right))"
    by (simp add: out_tests)
qed

text \<open>
  C2 as stated fails: an untouched game reaches \<open>passing_right\<close> after 1305 frames;
  there the ball moves right and after the next move its right edge, the leading one, is
  beyond the right boundary (the centre is at about 792.1); the frame requests no score
  and the ball flies on.
\<close>

theorem leading_edge_no_score:
  "run (untouched 1305) init_session = playing_with passing_right \<and>
   0 < ball_dx passing_right \<and>
   ball_x (move_ball (move_paddles passing_right)) = 6967385282890621 / 2 ^ 43 \<and>
   canvas_width < ball_x (move_ball (move_paddles passing_right)) + ball_radius \<and>
   snd (update rnd_half passing_right) = [] \<and>
   ball_x (fst (update rnd_half passing_right)) = 6967385282890621 / 2 ^ 43 \<and>
   ball_dx (fst (update rnd_half passing_right)) = ball_dx passing_right"
proof -
  have u: "update rnd_half passing_right = (flight 1306, [])"
    using update_flight [of 1305] by (simp add: flight_states)
  have x: "ball_x (flight 1306) = 6967385282890621 / 2 ^ 43"
    by (simp add: flight_def)
  have m: "ball_x (move_ball (move_paddles passing_right)) = 6967385282890621 / 2 ^ 43"
    using flight_x [of 1305] x by (simp add: move_ball_def flight_states [symmetric])
  have d: "0 < ball_dx passing_right" "ball_dx (flight 1306) = ball_dx passing_right"
    using speed_positive by (simp_all add: passing_right_def started_def)
  show ?thesis
    unfolding u m fst_conv snd_conv x
    using reach_passing_right d by (simp add: geometry_defs)
qed

text \<open>
  C2, amended. A frame reports a point exactly when, after its move, the whole ball is
  beyond a boundary, that is when the trailing edge has passed it: \<open>x + radius < 0\<close> on
  the left (a point for player 2), \<open>x - radius > canvas_width\<close> on the right (a point for
  player 1), whatever the direction of travel; \<open>x\<close> is the rounded sum that the move
  stores. In that frame the score sound is requested and the horizontal velocity is set
  to the double \<open>0.3\<close> (left) or to its negative (right).
\<close>

theorem trailing_edge_crossing:
  "(ScorePoint Player2 \<in> set (snd (update rnd l))) =
     (double_of (ball_x l + ball_dx l) + ball_radius < 0) \<and>
   (ScorePoint Player1 \<in> set (snd (update rnd l))) =
     (canvas_width < double_of (ball_x l + ball_dx l) - ball_radius) \<and>
   (double_of (ball_x l + ball_dx l) + ball_radius < 0 \<longrightarrow>
      PlaySound ScoreSound \<in> set (snd (update rnd l)) \<and>
      ball_dx (fst (update rnd l)) = double_of 0.3) \<and>
   (canvas_width < double_of (ball_x l + ball_dx l) - ball_radius \<longrightarrow>
      PlaySound ScoreSound \<in> set (snd (update rnd l)) \<and>
      ball_dx (fst (update rnd l)) = - double_of 0.3)"
proof -
  have l: "ball_dx (fst (update rnd l)) = double_of 0.3"
    if "out_left (move_ball (move_paddles l))"
    using that by (simp add: update_ball_dx)
  have r: "ball_dx (fst (update rnd l)) = - double_of 0.3"
    if "out_right (move_ball (move_paddles l))"
    using that out_exclusive [OF that] by (simp add: update_ball_dx)
  show ?thesis
    using l r by (simp add: score_requests out_tests [symmetric])
qed

theorem trailing_edge_crossing_witness:
  "run (untouched 1359) init_session = playing_with gone_right \<and>
   double_of (ball_x gone_right + ball_dx gone_right) = 7109881989850369 / 2 ^ 43 \<and>
   canvas_width < double_of (ball_x gone_right + ball_dx gone_right) - ball_radius \<and>
   ScorePoint Player1 \<in> set (snd (update rnd_half gone_right)) \<and>
   PlaySound ScoreSound \<in> set (snd (update rnd_half gone_right)) \<and>
   ball_dx (fst (update rnd_half gone_right)) = - double_of 0.3 \<and>
   double_of (ball_x gone_left + ball_dx gone_left) + ball_radius < 0 \<and>
   ScorePoint Player2 \<in> set (snd (update rnd_half gone_left)) \<and>
   ball_dx (fst (update rnd_half gone_left)) = double_of 0.3"
proof -
  note r = right_exit(2)
  have l: "double_of (ball_x gone_left + ball_dx gone_left) + ball_radius < 0"
    by (rule left_exit(1)) (simp_all add: gone_left_def)
  from trailing_edge_crossing [of rnd_half gone_right] r
  have 1: "ScorePoint Player1 \<in> set (snd (update rnd_half gone_right))"
    and 2: "PlaySound ScoreSound \<in> set (snd (update rnd_half gone_right))"
    and 3: "ball_dx (fst (update rnd_half gone_right)) = - double_of 0.3"
    by blast+
  from trailing_edge_crossing [of rnd_half gone_left] l
  have 4: "ScorePoint Player2 \<in> set (snd (update rnd_half gone_left))"
    and 5: "ball_dx (fst (update rnd_half gone_left)) = double_of 0.3"
    by blast+
  from reach_gone_right right_exit(1) r 1 2 3 l 4 5 show ?thesis by (intro conjI)
qed

subsection \<open>The reset after a point\<close>

lemma left_quiet:
  assumes "ball_y l = 401 / 4" and "ball_dy l = - double_of 0.3"
    and "ball_x l = - 8" and "ball_dx l = - double_of 0.3"
    and "250 \<le> paddle1_y (move_paddles l)"
  shows "\<not> hits_wall (move_ball (move_paddles l))"
    and "\<not> hits_paddle (move_ball (move_paddles l))"
proof -
  have lo: "double_of 8 \<le> double_of (ball_y l + ball_dy l)"
    by (rule double_of_mono) (simp add: assms double_three_tenths)
  have hi: "double_of (ball_y l + ball_dy l) \<le> double_of 250"
    by (rule double_of_mono) (simp add: assms double_three_tenths)
  have x: "double_of (ball_x l + ball_dx l) + ball_radius < 0"
    using assms(3,4) by (rule left_exit(1))
  show "\<not> hits_wall (move_ball (move_paddles l))"
    using lo hi by (simp add: hits_wall_def move_ball_def geometry_defs double_of_nat_small)
  show "\<not> hits_paddle (move_ball (move_paddles l))"
    using hi x assms(5)
    by (simp add: hits_paddle_def move_ball_def geometry_defs double_of_nat_small)
qed

lemma gone_left_frame:
  "out_left (move_ball (move_paddles gone_left))"
  "\<not> hits_wall (move_ball (move_paddles gone_left))"
  "\<not> hits_paddle (move_ball (move_paddles gone_left))"
proof -
  have m: "move_paddles gone_left = gone_left"
    by (rule idle_paddles) (simp_all add: gone_left_def started_def)
  show "out_left (move_ball (move_paddles gone_left))"
    by (rule left_exit(2)) (simp_all add: gone_left_def)
  show "\<not> hits_wall (move_ball (move_paddles gone_left))"
    by (rule left_quiet(1)) (simp_all add: m, simp_all add: gone_left_def started_def)
  show "\<not> hits_paddle (move_ball (move_paddles gone_left))"
    by (rule left_quiet(2)) (simp_all add: m, simp_all add: gone_left_def started_def)
qed

text \<open>
  C3 as stated fails: in \<open>gone_left\<close> the ball leaves on the left, the side of player 1,
  and player 2 gets the point. The reset puts the ball at the centre with horizontal
  velocity the double \<open>0.3\<close>, positive: towards player 2 and away from the side scored
  against. It leaves the vertical velocity at its negative value; and the run started
  after the point has a positive horizontal velocity too.
\<close>

theorem score_reset_away:
  "snd (update rnd_half gone_left) = [ScorePoint Player2, PlaySound ScoreSound] \<and>
   ball_x (fst (update rnd_half gone_left)) = 400 \<and>
   ball_y (fst (update rnd_half gone_left)) = 300 \<and>
   ball_dx (fst (update rnd_half gone_left)) = 5404319552844595 / 2 ^ 54 \<and>
   0 < ball_dx (fst (update rnd_half gone_left)) \<and>
   ball_dy (fst (update rnd_half gone_left)) = - (5404319552844595 / 2 ^ 54) \<and>
   running (step rnd_half AnimationFrame (playing_with gone_left)) = Some started \<and>
   0 < ball_dx started"
proof -
  note f = gone_left_frame
  have u: "snd (update rnd_half gone_left) = [ScorePoint Player2, PlaySound ScoreSound] \<and>
   ball_x (fst (update rnd_half gone_left)) = 400 \<and>
   ball_y (fst (update rnd_half gone_left)) = 300 \<and>
   ball_dx (fst (update rnd_half gone_left)) = 5404319552844595 / 2 ^ 54 \<and>
   0 < ball_dx (fst (update rnd_half gone_left)) \<and>
   ball_dy (fst (update rnd_half gone_left)) = - (5404319552844595 / 2 ^ 54)"
    using f
    by (simp add: update_requests update_ball_x update_ball_y update_ball_dx update_ball_dy
        geometry_defs double_three_tenths)
       (simp add: gone_left_def double_three_tenths)
  have l: "out_left (move_ball (move_paddles gone_left))"
    by (rule f(1))
  have s: "running (playing_with gone_left) = Some gone_left"
    and g: "gameStarted (comp (playing_with gone_left))"
      "\<not> gamePaused (comp (playing_with gone_left))"
    and z: "score_player1 (comp (playing_with gone_left)) = 0"
      "score_player2 (comp (playing_with gone_left)) = 0"
    by (simp_all add: playing_with_def init_component_def)
  have sc: "score_player1 (comp (step rnd_half AnimationFrame (playing_with gone_left))) < 15"
    "score_player2 (comp (step rnd_half AnimationFrame (playing_with gone_left))) < 15"
    using l out_exclusive [of "move_ball (move_paddles gone_left)"] z
    by (auto simp: step_frame_score [OF s])
  have r: "running (step rnd_half AnimationFrame (playing_with gone_left)) = Some started"
    using l by (intro step_frame_restart [OF s _ g sc]) (simp add: scored_iff)
  have d: "0 < ball_dx started"
    using speed_positive by (simp add: started_def)
  from u r d show ?thesis by blast
qed

text \<open>
  C3, amended. A frame in which the ball has left on the left requests one point for
  player 2 and sets the horizontal velocity to the double \<open>0.3\<close>; one in which it has
  left on the right requests one point for player 1 and sets the negative of it: the ball
  is served towards the side that scored. Either way the frame puts the ball at the
  centre and leaves the vertical velocity as its wall test left it. In a session the
  counter of the scoring side grows by one and the other stays; and when the game goes
  on, the run that the score change starts begins again from the initial values, of which
  one frame has run (\<open>started\<close>: both velocity components the double \<open>0.3\<close>, whichever
  side scored).
\<close>

theorem score_reset:
  "(out_left (move_ball (move_paddles l)) \<longrightarrow>
      filter is_score (snd (update rnd l)) = [ScorePoint Player2] \<and>
      ball_dx (fst (update rnd l)) = double_of 0.3) \<and>
   (out_right (move_ball (move_paddles l)) \<longrightarrow>
      filter is_score (snd (update rnd l)) = [ScorePoint Player1] \<and>
      ball_dx (fst (update rnd l)) = - double_of 0.3) \<and>
   (list_ex is_score (snd (update rnd l)) \<longrightarrow>
      ball_x (fst (update rnd l)) = canvas_width / 2 \<and>
      ball_y (fst (update rnd l)) = canvas_height / 2 \<and>
      ball_dy (fst (update rnd l)) =
        (if hits_wall (move_ball (move_paddles l)) then - ball_dy l else ball_dy l) \<and>
      (running s = Some l \<longrightarrow>
         score_player1 (comp (step rnd AnimationFrame s)) =
           (if out_right (move_ball (move_paddles l)) then score_player1 (comp s) + 1
            else score_player1 (comp s)) \<and>
         score_player2 (comp (step rnd AnimationFrame s)) =
           (if out_left (move_ball (move_paddles l)) then score_player2 (comp s) + 1
            else score_player2 (comp s)) \<and>
         (gameStarted (comp s) \<and> \<not> gamePaused (comp s) \<and>
          score_player1 (comp (step rnd AnimationFrame s)) < 15 \<and>
          score_player2 (comp (step rnd AnimationFrame s)) < 15 \<longrightarrow>
            running (step rnd AnimationFrame s) = Some started)))"
proof (intro conjI impI)
  assume o: "out_left (move_ball (move_paddles l))"
  from o show "filter is_score (snd (update rnd l)) = [ScorePoint Player2]"
    by (simp add: filter_score)
  from o show "ball_dx (fst (update rnd l)) = double_of 0.3"
    by (simp add: update_ball_dx)
next
  assume o: "out_right (move_ball (move_paddles l))"
  then have n: "\<not> out_left (move_ball (move_paddles l))"
    using out_exclusive by blast
  from o n show "filter is_score (snd (update rnd l)) = [ScorePoint Player1]"
    by (simp add: filter_score)
  from o n show "ball_dx (fst (update rnd l)) = - double_of 0.3"
    by (simp add: update_ball_dx)
next
  assume sc: "list_ex is_score (snd (update rnd l))"
  then have o: "out_left (move_ball (move_paddles l)) \<or> out_right (move_ball (move_paddles l))"
    by (simp add: scored_iff)
  from o show "ball_x (fst (update rnd l)) = canvas_width / 2"
    by (simp add: update_ball_x)
  from o show "ball_y (fst (update rnd l)) = canvas_height / 2"
    by (simp add: update_ball_y)
  show "ball_dy (fst (update rnd l)) =
        (if hits_wall (move_ball (move_paddles l)) then - ball_dy l else ball_dy l)"
    by (simp add: update_ball_dy)
  assume r: "running s = Some l"
  show "score_player1 (comp (step rnd AnimationFrame s)) =
           (if out_right (move_ball (move_paddles l)) then score_player1 (comp s) + 1
            else score_player1 (comp s))"
    by (rule step_frame_score(1) [OF r])
  show "score_player2 (comp (step rnd AnimationFrame s)) =
           (if out_left (move_ball (move_paddles l)) then score_player2 (comp s) + 1
            else score_player2 (comp s))"
    by (rule step_frame_score(2) [OF r])
  assume g: "gameStarted (comp s) \<and> \<not> gamePaused (comp s) \<and>
          score_player1 (comp (step rnd AnimationFrame s)) < 15 \<and>
          score_player2 (comp (step rnd AnimationFrame s)) < 15"
  then show "running (step rnd AnimationFrame s) = Some started"
    using step_frame_restart [OF r sc] by blast
qed

theorem score_reset_witness:
  "out_left (move_ball (move_paddles gone_left)) \<and>
   list_ex is_score (snd (update rnd_half gone_left)) \<and>
   running (playing_with gone_left) = Some gone_left \<and>
   gameStarted (comp (playing_with gone_left)) \<and>
   \<not> gamePaused (comp (playing_with gone_left)) \<and>
   filter is_score (snd (update rnd_half gone_left)) = [ScorePoint Player2] \<and>
   ball_dx (fst (update rnd_half gone_left)) = double_of 0.3 \<and>
   ball_x (fst (update rnd_half gone_left)) = canvas_width / 2 \<and>
   score_player2 (comp (playing_with gone_left)) = 0 \<and>
   score_player1 (comp (step rnd_half AnimationFrame (playing_with gone_left))) = 0 \<and>
   score_player2 (comp (step rnd_half AnimationFrame (playing_with gone_left))) = 1 \<and>
   running (step rnd_half AnimationFrame (playing_with gone_left)) = Some started \<and>
   out_right (move_ball (move_paddles gone_right)) \<and>
   ball_dx (fst (update rnd_half gone_right)) = - double_of 0.3"
proof -
  have l: "out_left (move_ball (move_paddles gone_left))"
    by (rule gone_left_frame(1))
  then have nr: "\<not> out_right (move_ball (move_paddles gone_left))"
    using out_exclusive by blast
  have sc: "list_ex is_score (snd (update rnd_half gone_left))"
    using l by (simp add: scored_iff)
  have r: "out_right (move_ball (move_paddles gone_right))"
    by (rule right_exit(3))
  have s: "running (playing_with gone_left) = Some gone_left"
    and g: "gameStarted (comp (playing_with gone_left))"
      "\<not> gamePaused (comp (playing_with gone_left))"
    and z: "score_player1 (comp (playing_with gone_left)) = 0"
      "score_player2 (comp (playing_with gone_left)) = 0"
    by (simp_all add: playing_with_def init_component_def)
  note t = score_reset [of gone_left rnd_half "playing_with gone_left"]
  from t l have 1: "filter is_score (snd (update rnd_half gone_left)) = [ScorePoint Player2]"
    and 2: "ball_dx (fst (update rnd_half gone_left)) = double_of 0.3"
    by blast+
  from t sc have 3: "ball_x (fst (update rnd_half gone_left)) = canvas_width / 2"
    by blast
  from t sc s l nr z
  have 4: "score_player1 (comp (step rnd_half AnimationFrame (playing_with gone_left))) = 0"
    and 5: "score_player2 (comp (step rnd_half AnimationFrame (playing_with gone_left))) = 1"
    by simp_all
  from t sc s g 4 5
  have 6: "running (step rnd_half AnimationFrame (playing_with gone_left)) = Some started"
    by simp
  from score_reset [of gone_right rnd_half "playing_with gone_right"] r
  have 7: "ball_dx (fst (update rnd_half gone_right)) = - double_of 0.3"
    by blast
  from l sc s g 1 2 3 z(2) 4 5 6 r 7 show ?thesis by (intro conjI)
qed


subsection \<open>One point for each crossing\<close>

lemma room_less: "room n l \<Longrightarrow> m \<le> n \<Longrightarrow> room m l"
proof -
  assume r: "room n l" and m: "m \<le> n"
  have p: "0 \<le> double_of 0.3 + 2 powi (- 44)"
    using speed_positive by (simp add: add_nonneg_nonneg less_imp_le)
  from m have "real m \<le> real n" by simp
  then have "real m * (double_of 0.3 + 2 powi (- 44)) \<le> real n * (double_of 0.3 + 2 powi (- 44))"
    using p by (rule mult_right_mono)
  with r show "room m l"
    unfolding room_def by linarith
qed

lemma room_started: "room 1358 started"
  by (simp add: room_def started_def geometry_defs double_three_tenths power_int_minus)

lemma room_set_key: "room n l \<Longrightarrow> room n (set_key k b l)"
  by (simp add: room_def)

lemma room_update:
  assumes "room (Suc n) l"
  shows "\<not> list_ex is_score (snd (update rnd l))" and "room n (fst (update rnd l))"
proof -
  define c where "c = double_of 0.3"
  define d where "d = (2::real) powi (- 44)"
  define q where "q = real n * (c + d)"
  have c: "0 < c" "c < 1" and d: "0 < d"
    by (simp_all add: c_def d_def double_three_tenths)
  have q: "0 \<le> q"
    using c d by (simp add: q_def)
  from assms have v: "\<bar>ball_dx l\<bar> = c"
    and x0: "\<bar>ball_x l - canvas_width / 2\<bar> + real (Suc n) * (c + d) \<le>
      canvas_width / 2 + ball_radius"
    unfolding room_def c_def d_def by blast+
  have sq: "real (Suc n) * (c + d) = q + (c + d)"
    unfolding q_def by (simp add: algebra_simps)
  have x: "\<bar>ball_x l - 400\<bar> + (q + (c + d)) \<le> 408"
    using x0 unfolding sq by (simp add: geometry_defs)
  have s: "\<bar>ball_x l + ball_dx l - 400\<bar> \<le> \<bar>ball_x l - 400\<bar> + c"
    using v by linarith
  with x q d have "\<bar>ball_x l + ball_dx l\<bar> < 2 powi (9 + 1)"
    by simp
  then have "\<bar>double_of (ball_x l + ball_dx l) - (ball_x l + ball_dx l)\<bar> \<le> 2 powi (9 - 53)"
    by (rule double_of_error)
  then have e: "\<bar>double_of (ball_x l + ball_dx l) - (ball_x l + ball_dx l)\<bar> \<le> d"
    by (simp add: d_def)
  from e s x have n: "\<bar>double_of (ball_x l + ball_dx l) - 400\<bar> + q \<le> 408"
    by linarith
  with q have o: "\<not> out_left (move_ball (move_paddles l))"
    "\<not> out_right (move_ball (move_paddles l))"
    by (simp_all add: out_tests geometry_defs)
  then show "\<not> list_ex is_score (snd (update rnd l))"
    by (simp add: scored_iff)
  have "\<bar>ball_dx (fst (update rnd l))\<bar> = c"
    using o v by (simp add: update_ball_dx)
  moreover have "ball_x (fst (update rnd l)) = double_of (ball_x l + ball_dx l)"
    using o by (simp add: update_ball_x)
  ultimately have "\<bar>ball_dx (fst (update rnd l))\<bar> = c \<and>
      \<bar>ball_x (fst (update rnd l)) - canvas_width / 2\<bar> + real n * (c + d) \<le>
        canvas_width / 2 + ball_radius"
    using n unfolding q_def by (simp add: geometry_defs)
  then show "room n (fst (update rnd l))"
    unfolding room_def c_def d_def .
qed

lemma step_key_score:
  "score_player1 (comp (step rnd (KeyDown k) s)) = score_player1 (comp s)"
  "score_player2 (comp (step rnd (KeyDown k) s)) = score_player2 (comp s)"
  "score_player1 (comp (step rnd (KeyUp k) s)) = score_player1 (comp s)"
  "score_player2 (comp (step rnd (KeyUp k) s)) = score_player2 (comp s)"
  by (simp_all add: step_def commit_score split: option.splits)

lemma room_step:
  assumes i: "loop_input i" and n: "n < 1358"
    and r: "\<And>l. running s = Some l \<Longrightarrow> room (Suc n) l"
  shows "running (step rnd i s) = Some l' \<Longrightarrow> room n l'"
    and "score_player1 (comp (step rnd i s)) = score_player1 (comp s)"
    and "score_player2 (comp (step rnd i s)) = score_player2 (comp s)"
proof -
  show "room n l'" if "running (step rnd i s) = Some l'"
  proof -
    from step_running_cases [OF that]
    consider "l' = started"
      | l where "running s = Some l" "l' = l \<or> l' = fst (update rnd l) \<or> (\<exists>k b. l' = set_key k b l)"
      by blast
    then show ?thesis
    proof cases
      case 1
      then show ?thesis
        using room_less [OF room_started, of n] n by simp
    next
      case 2
      note a = r [OF 2(1)]
      have b: "room n l" using a by (rule room_less) simp
      from 2(2) show ?thesis
        using b room_update(2) [OF a, of rnd] room_set_key [OF b] by blast
    qed
  qed
  show "score_player1 (comp (step rnd i s)) = score_player1 (comp s)"
    and "score_player2 (comp (step rnd i s)) = score_player2 (comp s)"
  proof -
    have "score_player1 (comp (step rnd i s)) = score_player1 (comp s) \<and>
        score_player2 (comp (step rnd i s)) = score_player2 (comp s)"
    proof (cases i)
      case AnimationFrame
      show ?thesis
      proof (cases "running s")
        case None
        then show ?thesis by (simp add: AnimationFrame step_idle)
      next
        case (Some l)
        from room_update(1) [OF r [OF Some], of rnd] show ?thesis
          by (simp add: AnimationFrame step_frame_quiet [OF Some])
      qed
    next
      case (KeyDown k)
      then show ?thesis by (simp add: step_key_score)
    next
      case (KeyUp k)
      then show ?thesis by (simp add: step_key_score)
    qed (use i in simp_all)
    then show "score_player1 (comp (step rnd i s)) = score_player1 (comp s)"
      and "score_player2 (comp (step rnd i s)) = score_player2 (comp s)"
      by simp_all
  qed
qed

lemma room_run:
  assumes "list_all (\<lambda>(rnd, i). loop_input i) ins" and "length ins \<le> n" and "n \<le> 1358"
    and "\<And>l. running s = Some l \<Longrightarrow> room n l"
  shows "score_player1 (comp (run ins s)) = score_player1 (comp s) \<and>
         score_player2 (comp (run ins s)) = score_player2 (comp s)"
  using assms
proof (induction ins arbitrary: s n)
  case Nil
  show ?case by simp
next
  case (Cons a ins)
  obtain rnd i where a: "a = (rnd, i)" by (cases a)
  from Cons.prems(2) obtain m where n: "n = Suc m" by (cases n) simp_all
  from Cons.prems(1) have i: "loop_input i" and rest: "list_all (\<lambda>(rnd, i). loop_input i) ins"
    by (simp_all add: a)
  from Cons.prems(3) have m: "m < 1358" "m \<le> 1358" by (simp_all add: n)
  have r: "room (Suc m) l" if "running s = Some l" for l
    using Cons.prems(4) [OF that] by (simp only: n)
  have "score_player1 (comp (run ins (step rnd i s))) = score_player1 (comp (step rnd i s)) \<and>
      score_player2 (comp (run ins (step rnd i s))) = score_player2 (comp (step rnd i s))"
  proof (rule Cons.IH [OF rest _ m(2)])
    show "length ins \<le> m" using Cons.prems(2) by (simp add: n)
    show "room m l" if "running (step rnd i s) = Some l" for l
      using room_step(1) [OF i m(1) r that] by simp
  qed
  then show ?case
    using room_step(2,3) [OF i m(1) r, where rnd = rnd] by (simp add: a)
qed

lemma after_point:
  assumes "running s = Some l" and "list_ex is_score (snd (update rnd l))"
  shows "running (step rnd AnimationFrame s) = None \<or>
         running (step rnd AnimationFrame s) = Some started"
  by (simp add: step_frame_scoring(2) [OF assms] game_loop_effect_def first_update)

text \<open>
  C4. A frame that reports a crossing requests exactly one point, for one player, and puts
  the ball at the centre, inside the surface. In a session that player's counter grows by
  one and the other stays; the frame leaves no run, or the new run that the score change
  starts, whose ball is one step from the centre. From there no frame among the next
  1358 inputs changes a counter, whatever keys are pressed in between: the ball needs
  more than 1359 steps of \<open>0.3\<close> and a rounding error to leave the surface again.
\<close>

theorem one_point_per_crossing:
  "list_ex is_score (snd (update rnd l)) \<longrightarrow>
     (filter is_score (snd (update rnd l)) = [ScorePoint Player1] \<or>
      filter is_score (snd (update rnd l)) = [ScorePoint Player2]) \<and>
     ball_x (fst (update rnd l)) = canvas_width / 2 \<and>
     ball_y (fst (update rnd l)) = canvas_height / 2 \<and>
     0 \<le> ball_x (fst (update rnd l)) - ball_radius \<and>
     ball_x (fst (update rnd l)) + ball_radius \<le> canvas_width \<and>
     0 \<le> ball_y (fst (update rnd l)) - ball_radius \<and>
     ball_y (fst (update rnd l)) + ball_radius \<le> canvas_height \<and>
     (running s = Some l \<longrightarrow>
        (score_player1 (comp (step rnd AnimationFrame s)),
         score_player2 (comp (step rnd AnimationFrame s))) =
        (if filter is_score (snd (update rnd l)) = [ScorePoint Player1]
         then (score_player1 (comp s) + 1, score_player2 (comp s))
         else (score_player1 (comp s), score_player2 (comp s) + 1)) \<and>
        (running (step rnd AnimationFrame s) = None \<or>
         running (step rnd AnimationFrame s) = Some started) \<and>
        (\<forall>ins. list_all (\<lambda>(rnd, i). loop_input i) ins \<and> length ins \<le> 1358 \<longrightarrow>
           score_player1 (comp (run ins (step rnd AnimationFrame s))) =
             score_player1 (comp (step rnd AnimationFrame s)) \<and>
           score_player2 (comp (run ins (step rnd AnimationFrame s))) =
             score_player2 (comp (step rnd AnimationFrame s))))"
proof (intro impI conjI allI)
  assume sc: "list_ex is_score (snd (update rnd l))"
  then have o: "out_left (move_ball (move_paddles l)) \<or> out_right (move_ball (move_paddles l))"
    by (simp add: scored_iff)
  show "filter is_score (snd (update rnd l)) = [ScorePoint Player1] \<or>
      filter is_score (snd (update rnd l)) = [ScorePoint Player2]"
    using o by (auto simp: filter_score)
  show x: "ball_x (fst (update rnd l)) = canvas_width / 2"
    using o by (simp add: update_ball_x)
  show y: "ball_y (fst (update rnd l)) = canvas_height / 2"
    using o by (simp add: update_ball_y)
  show "0 \<le> ball_x (fst (update rnd l)) - ball_radius"
    "ball_x (fst (update rnd l)) + ball_radius \<le> canvas_width"
    "0 \<le> ball_y (fst (update rnd l)) - ball_radius"
    "ball_y (fst (update rnd l)) + ball_radius \<le> canvas_height"
    unfolding x y by (simp_all add: geometry_defs)
  assume r: "running s = Some l"
  show "(score_player1 (comp (step rnd AnimationFrame s)),
         score_player2 (comp (step rnd AnimationFrame s))) =
        (if filter is_score (snd (update rnd l)) = [ScorePoint Player1]
         then (score_player1 (comp s) + 1, score_player2 (comp s))
         else (score_player1 (comp s), score_player2 (comp s) + 1))"
    using o out_exclusive [of "move_ball (move_paddles l)"]
    by (auto simp: step_frame_score [OF r] filter_score)
  show a: "running (step rnd AnimationFrame s) = None \<or>
      running (step rnd AnimationFrame s) = Some started"
    using r sc by (rule after_point)
  fix ins :: "((nat \<Rightarrow> real) \<times> input) list"
  assume i: "list_all (\<lambda>(rnd, i). loop_input i) ins \<and> length ins \<le> 1358"
  have "score_player1 (comp (run ins (step rnd AnimationFrame s))) =
      score_player1 (comp (step rnd AnimationFrame s)) \<and>
    score_player2 (comp (run ins (step rnd AnimationFrame s))) =
      score_player2 (comp (step rnd AnimationFrame s))"
  proof (rule room_run [of ins 1358])
    show "room 1358 l'" if "running (step rnd AnimationFrame s) = Some l'" for l'
      using a that room_started by auto
  qed (use i in simp_all)
  then show "score_player1 (comp (run ins (step rnd AnimationFrame s))) =
      score_player1 (comp (step rnd AnimationFrame s))"
    and "score_player2 (comp (run ins (step rnd AnimationFrame s))) =
      score_player2 (comp (step rnd AnimationFrame s))"
    by simp_all
qed

theorem one_point_per_crossing_witness:
  "run (untouched 1359) init_session = playing_with gone_right \<and>
   running (playing_with gone_right) = Some gone_right \<and>
   list_ex is_score (snd (update rnd_half gone_right)) \<and>
   filter is_score (snd (update rnd_half gone_right)) = [ScorePoint Player1] \<and>
   score_player1 (comp (playing_with gone_right)) = 0 \<and>
   score_player2 (comp (playing_with gone_right)) = 0 \<and>
   score_player1 (comp (step rnd_half AnimationFrame (playing_with gone_right))) = 1 \<and>
   score_player2 (comp (step rnd_half AnimationFrame (playing_with gone_right))) = 0 \<and>
   ball_x (fst (update rnd_half gone_right)) = 400 \<and>
   running (step rnd_half AnimationFrame (playing_with gone_right)) = Some started \<and>
   list_all (\<lambda>(rnd, i). loop_input i)
     [(rnd_half, AnimationFrame), (rnd_half, KeyDown ''w''), (rnd_half, AnimationFrame)] \<and>
   length [(rnd_half, AnimationFrame), (rnd_half, KeyDown ''w''), (rnd_half, AnimationFrame)]
     \<le> 1358 \<and>
   score_player1 (comp (run
     [(rnd_half, AnimationFrame), (rnd_half, KeyDown ''w''), (rnd_half, AnimationFrame)]
     (step rnd_half AnimationFrame (playing_with gone_right)))) = 1 \<and>
   score_player2 (comp (run
     [(rnd_half, AnimationFrame), (rnd_half, KeyDown ''w''), (rnd_half, AnimationFrame)]
     (step rnd_half AnimationFrame (playing_with gone_right)))) = 0"
proof -
  let ?s = "playing_with gone_right"
  let ?ins = "[(rnd_half, AnimationFrame), (rnd_half, KeyDown ''w''), (rnd_half, AnimationFrame)]"
  have o: "out_right (move_ball (move_paddles gone_right))"
    by (rule right_exit(3))
  then have n: "\<not> out_left (move_ball (move_paddles gone_right))"
    using out_exclusive by blast
  have sc: "list_ex is_score (snd (update rnd_half gone_right))"
    using o by (simp add: scored_iff)
  have f: "filter is_score (snd (update rnd_half gone_right)) = [ScorePoint Player1]"
    using o n by (simp add: filter_score)
  have s: "running ?s = Some gone_right"
    and z: "score_player1 (comp ?s) = 0" "score_player2 (comp ?s) = 0"
    and g: "gameStarted (comp ?s)" "\<not> gamePaused (comp ?s)"
    by (simp_all add: playing_with_def init_component_def)
  have la: "list_all (\<lambda>(rnd, i). loop_input i) ?ins" and le: "length ?ins \<le> 1358"
    by simp_all
  note t = one_point_per_crossing [of rnd_half gone_right ?s]
  from t sc s f z
  have p: "(score_player1 (comp (step rnd_half AnimationFrame ?s)),
      score_player2 (comp (step rnd_half AnimationFrame ?s))) = (1, 0)"
    by simp
  then have p1: "score_player1 (comp (step rnd_half AnimationFrame ?s)) = 1"
    and p2: "score_player2 (comp (step rnd_half AnimationFrame ?s)) = 0"
    by simp_all
  from t sc have x: "ball_x (fst (update rnd_half gone_right)) = canvas_width / 2"
    by blast
  then have x': "ball_x (fst (update rnd_half gone_right)) = 400"
    by (simp add: geometry_defs)
  have r: "running (step rnd_half AnimationFrame ?s) = Some started"
    using sc g p1 p2 by (intro step_frame_restart [OF s]) simp_all
  from t sc s la le
  have "score_player1 (comp (run ?ins (step rnd_half AnimationFrame ?s))) =
      score_player1 (comp (step rnd_half AnimationFrame ?s)) \<and>
    score_player2 (comp (run ?ins (step rnd_half AnimationFrame ?s))) =
      score_player2 (comp (step rnd_half AnimationFrame ?s))"
    by blast
  then have q1: "score_player1 (comp (run ?ins (step rnd_half AnimationFrame ?s))) = 1"
    and q2: "score_player2 (comp (run ?ins (step rnd_half AnimationFrame ?s))) = 0"
    by (simp_all only: p1 p2)
  from reach_gone_right s sc f z p1 p2 x' r la le q1 q2 show ?thesis by (intro conjI)
qed

subsection \<open>A new run after each point\<close>

text \<open>
  C5. A render in which a dependency of the game-loop effect changed ends with the run
  that the effect starts for the final state, or none. A frame that scores changes the
  score dependency, so the run after it is a new one (when the game goes on: both scores
  below 15, started, not paused), and every new run has both paddles at the vertical
  centre, no particles and no key held.
\<close>

theorem score_change_recreates_loop:
  "(loop_deps new \<noteq> loop_deps old \<longrightarrow>
      running (commit rnd old f new lp) = game_loop_effect rnd (comp (commit rnd old f new lp))) \<and>
   (running s = Some l \<and> list_ex is_score (snd (update rnd l)) \<longrightarrow>
      loop_deps (fold apply_request (snd (update rnd l)) (comp s)) \<noteq> loop_deps (comp s) \<and>
      running (step rnd AnimationFrame s) =
        game_loop_effect rnd (comp (step rnd AnimationFrame s)) \<and>
      (gameStarted (comp s) \<and> \<not> gamePaused (comp s) \<and>
       score_player1 (comp (step rnd AnimationFrame s)) < 15 \<and>
       score_player2 (comp (step rnd AnimationFrame s)) < 15 \<longrightarrow>
         running (step rnd AnimationFrame s) = Some (fst (update rnd init_loop)))) \<and>
   (\<forall>l'. game_loop_effect rnd c = Some l' \<longrightarrow>
      paddle1_y l' = canvas_height / 2 - paddleHeight / 2 \<and>
      paddle2_y l' = canvas_height / 2 - paddleHeight / 2 \<and>
      particles l' = [] \<and>
      \<not> keys_w l' \<and> \<not> keys_s l' \<and> \<not> keys_ArrowUp l' \<and> \<not> keys_ArrowDown l')"
proof (intro conjI impI allI)
  assume "loop_deps new \<noteq> loop_deps old"
  then show "running (commit rnd old f new lp) =
      game_loop_effect rnd (comp (commit rnd old f new lp))"
    by (rule commit_rerun)
next
  assume a: "running s = Some l \<and> list_ex is_score (snd (update rnd l))"
  then show "loop_deps (fold apply_request (snd (update rnd l)) (comp s)) \<noteq> loop_deps (comp s)"
    using step_frame_scoring(1) by blast
  from a show r: "running (step rnd AnimationFrame s) =
        game_loop_effect rnd (comp (step rnd AnimationFrame s))"
    using step_frame_scoring(2) by blast
  assume b: "gameStarted (comp s) \<and> \<not> gamePaused (comp s) \<and>
       score_player1 (comp (step rnd AnimationFrame s)) < 15 \<and>
       score_player2 (comp (step rnd AnimationFrame s)) < 15"
  from a have rs: "running s = Some l" by blast
  from b have "gameStarted (comp (step rnd AnimationFrame s))"
    and "\<not> gamePaused (comp (step rnd AnimationFrame s))"
    by (simp_all add: step_frame_flags [OF rs])
  with r show "running (step rnd AnimationFrame s) = Some (fst (update rnd init_loop))"
    by (simp add: game_loop_effect_def)
next
  fix l' assume "game_loop_effect rnd c = Some l'"
  then have l': "l' = started"
    by (simp add: game_loop_effect_def first_update split: if_splits)
  show "paddle1_y l' = canvas_height / 2 - paddleHeight / 2"
    "paddle2_y l' = canvas_height / 2 - paddleHeight / 2"
    "particles l' = []"
    by (simp_all add: l' started_def geometry_defs)
  show "\<not> keys_w l'" "\<not> keys_s l'" "\<not> keys_ArrowUp l'" "\<not> keys_ArrowDown l'"
    by (simp_all add: l' started_def)
qed

theorem score_change_recreates_loop_witness:
  "loop_deps (init_component\<lparr>score_player2 := 1\<rparr>) \<noteq> loop_deps init_component \<and>
   running (playing_with busy) = Some busy \<and>
   list_ex is_score (snd (update rnd_half busy)) \<and>
   gameStarted (comp (playing_with busy)) \<and> \<not> gamePaused (comp (playing_with busy)) \<and>
   score_player1 (comp (step rnd_half AnimationFrame (playing_with busy))) < 15 \<and>
   score_player2 (comp (step rnd_half AnimationFrame (playing_with busy))) < 15 \<and>
   running (step rnd_half AnimationFrame (playing_with busy)) = Some started \<and>
   paddle1_y busy = 400 \<and> paddle1_y started = 250 \<and>
   paddle2_y busy = 100 \<and> paddle2_y started = 250 \<and>
   particles busy = [fade spark] \<and> particles started = [] \<and>
   keys_w busy \<and> \<not> keys_w started \<and> keys_ArrowDown busy \<and> \<not> keys_ArrowDown started"
proof -
  have d: "loop_deps (init_component\<lparr>score_player2 := 1\<rparr>) \<noteq> loop_deps init_component"
    by (simp add: loop_deps_def init_component_def)
  have l: "out_left (move_ball (move_paddles busy))"
    by (rule left_exit(2)) (simp_all add: busy_def gone_left_def)
  then have sc: "list_ex is_score (snd (update rnd_half busy))"
    by (simp add: scored_iff)
  have s: "running (playing_with busy) = Some busy"
    and g: "gameStarted (comp (playing_with busy))" "\<not> gamePaused (comp (playing_with busy))"
    and z: "score_player1 (comp (playing_with busy)) = 0"
      "score_player2 (comp (playing_with busy)) = 0"
    by (simp_all add: playing_with_def init_component_def)
  have sc1: "score_player1 (comp (step rnd_half AnimationFrame (playing_with busy))) < 15"
    and sc2: "score_player2 (comp (step rnd_half AnimationFrame (playing_with busy))) < 15"
    using l out_exclusive [of "move_ball (move_paddles busy)"] z
    by (auto simp: step_frame_score [OF s])
  have v: "paddle1_y busy = 400" "paddle2_y busy = 100" "particles busy = [fade spark]"
    "keys_w busy" "keys_ArrowDown busy"
    by (simp_all add: busy_def gone_left_def started_def)
  note t = score_change_recreates_loop [of "init_component\<lparr>score_player2 := 1\<rparr>" init_component
      rnd_half True None "playing_with busy" busy
      "comp (step rnd_half AnimationFrame (playing_with busy))"]
  from t s sc g sc1 sc2
  have r: "running (step rnd_half AnimationFrame (playing_with busy)) =
      Some (fst (update rnd_half init_loop))"
    and e: "running (step rnd_half AnimationFrame (playing_with busy)) =
      game_loop_effect rnd_half (comp (step rnd_half AnimationFrame (playing_with busy)))"
    by blast+
  from r have r': "running (step rnd_half AnimationFrame (playing_with busy)) = Some started"
    by (simp add: first_update)
  with e have "game_loop_effect rnd_half
      (comp (step rnd_half AnimationFrame (playing_with busy))) = Some started"
    by simp
  with t have w: "paddle1_y started = canvas_height / 2 - paddleHeight / 2"
    "paddle2_y started = canvas_height / 2 - paddleHeight / 2"
    "particles started = []" "\<not> keys_w started" "\<not> keys_ArrowDown started"
    by blast+
  from w have w': "paddle1_y started = 250" "paddle2_y started = 250"
    by (simp_all add: geometry_defs)
  from d s sc g sc1 sc2 r' v w w' show ?thesis by (intro conjI)
qed

subsection \<open>The end of the match\<close>

lemma idle_step:
  "running s = None \<Longrightarrow> loop_input i \<Longrightarrow> step rnd i s = s"
  by (cases i) (simp_all add: step_idle)

lemma idle_run:
  "running s = None \<Longrightarrow> list_all (\<lambda>(rnd, i). loop_input i) ins \<Longrightarrow> run ins s = s"
  by (induction ins) (auto simp: idle_step)

text \<open>
  C8. From a session with a run active and both scores below 15, a frame after which the
  score of player 1 is 15 records the winner \<open>Player 1\<close>, ends the game
  (\<open>gameStarted\<close> is false), and leaves no run active, so that further frames and key
  events change nothing; likewise for player 2. A frame after which both scores are below
  15 leaves winner and \<open>gameStarted\<close> as they were.
\<close>

theorem first_to_fifteen_wins:
  "running s = Some l \<and> score_player1 (comp s) < 15 \<and> score_player2 (comp s) < 15 \<longrightarrow>
     (if 15 \<le> score_player1 (comp (step rnd AnimationFrame s))
      then score_player1 (comp (step rnd AnimationFrame s)) = 15 \<and>
           score_player2 (comp (step rnd AnimationFrame s)) < 15 \<and>
           winner (comp (step rnd AnimationFrame s)) = Some ''Player 1'' \<and>
           \<not> gameStarted (comp (step rnd AnimationFrame s)) \<and>
           running (step rnd AnimationFrame s) = None \<and>
           (\<forall>ins. list_all (\<lambda>(rnd, i). loop_input i) ins \<longrightarrow>
              run ins (step rnd AnimationFrame s) = step rnd AnimationFrame s)
      else if 15 \<le> score_player2 (comp (step rnd AnimationFrame s))
      then score_player2 (comp (step rnd AnimationFrame s)) = 15 \<and>
           score_player1 (comp (step rnd AnimationFrame s)) < 15 \<and>
           winner (comp (step rnd AnimationFrame s)) = Some ''Player 2'' \<and>
           \<not> gameStarted (comp (step rnd AnimationFrame s)) \<and>
           running (step rnd AnimationFrame s) = None \<and>
           (\<forall>ins. list_all (\<lambda>(rnd, i). loop_input i) ins \<longrightarrow>
              run ins (step rnd AnimationFrame s) = step rnd AnimationFrame s)
      else winner (comp (step rnd AnimationFrame s)) = winner (comp s) \<and>
           gameStarted (comp (step rnd AnimationFrame s)) = gameStarted (comp s))"
proof (intro impI)
  assume a: "running s = Some l \<and> score_player1 (comp s) < 15 \<and> score_player2 (comp s) < 15"
  then have rs: "running s = Some l" by blast
  let ?s' = "step rnd AnimationFrame s"
  note sc = step_frame_score [OF rs, of rnd]
  note fl = step_frame_flags [OF rs, of rnd]
  have won: "running ?s' = None \<and>
      (\<forall>ins. list_all (\<lambda>(rnd, i). loop_input i) ins \<longrightarrow> run ins ?s' = ?s')"
    if w: "15 \<le> score_player1 (comp ?s') \<or> 15 \<le> score_player2 (comp ?s')"
  proof -
    from w a have scored: "list_ex is_score (snd (update rnd l))"
      by (auto simp: sc scored_iff split: if_splits)
    with w have "\<not> gameStarted (comp ?s')"
      by (simp add: fl(2))
    then have "running ?s' = None"
      by (simp add: step_frame_scoring(2) [OF rs scored] game_loop_effect_def)
    then show ?thesis using idle_run by blast
  qed
  show "if 15 \<le> score_player1 (comp ?s')
      then score_player1 (comp ?s') = 15 \<and> score_player2 (comp ?s') < 15 \<and>
           winner (comp ?s') = Some ''Player 1'' \<and> \<not> gameStarted (comp ?s') \<and>
           running ?s' = None \<and>
           (\<forall>ins. list_all (\<lambda>(rnd, i). loop_input i) ins \<longrightarrow> run ins ?s' = ?s')
      else if 15 \<le> score_player2 (comp ?s')
      then score_player2 (comp ?s') = 15 \<and> score_player1 (comp ?s') < 15 \<and>
           winner (comp ?s') = Some ''Player 2'' \<and> \<not> gameStarted (comp ?s') \<and>
           running ?s' = None \<and>
           (\<forall>ins. list_all (\<lambda>(rnd, i). loop_input i) ins \<longrightarrow> run ins ?s' = ?s')
      else winner (comp ?s') = winner (comp s) \<and> gameStarted (comp ?s') = gameStarted (comp s)"
  proof (cases "15 \<le> score_player1 (comp ?s')")
    case True
    with a have o: "out_right (move_ball (move_paddles l))" "score_player1 (comp ?s') = 15"
      by (auto simp: sc split: if_splits)
    then have "\<not> out_left (move_ball (move_paddles l))"
      using out_exclusive by blast
    with a have p2: "score_player2 (comp ?s') < 15" by (simp add: sc)
    from o True have "winner (comp ?s') = Some ''Player 1''" "\<not> gameStarted (comp ?s')"
      by (simp_all add: fl scored_iff)
    with True o p2 won show ?thesis by simp
  next
    case False
    show ?thesis
    proof (cases "15 \<le> score_player2 (comp ?s')")
      case True
      with a have o: "out_left (move_ball (move_paddles l))" "score_player2 (comp ?s') = 15"
        by (auto simp: sc split: if_splits)
      from o True False have "winner (comp ?s') = Some ''Player 2''" "\<not> gameStarted (comp ?s')"
        by (simp_all add: fl scored_iff)
      with True False o won show ?thesis by simp
    next
      case F2: False
      with False show ?thesis by (simp add: fl)
    qed
  qed
qed

theorem first_to_fifteen_wins_witness:
  "running match_point = Some gone_right \<and>
   score_player1 (comp match_point) < 15 \<and> score_player2 (comp match_point) < 15 \<and>
   score_player1 (comp (step rnd_half AnimationFrame match_point)) = 15 \<and>
   winner (comp (step rnd_half AnimationFrame match_point)) = Some ''Player 1'' \<and>
   \<not> gameStarted (comp (step rnd_half AnimationFrame match_point)) \<and>
   running (step rnd_half AnimationFrame match_point) = None \<and>
   list_all (\<lambda>(rnd, i). loop_input i)
     [(rnd_half, AnimationFrame), (rnd_half, KeyDown ''s''), (rnd_half, AnimationFrame)] \<and>
   run [(rnd_half, AnimationFrame), (rnd_half, KeyDown ''s''), (rnd_half, AnimationFrame)]
     (step rnd_half AnimationFrame match_point) = step rnd_half AnimationFrame match_point"
proof -
  have s: "running match_point = Some gone_right"
    and z: "score_player1 (comp match_point) < 15" "score_player2 (comp match_point) < 15"
      "score_player1 (comp match_point) = 14"
    by (simp_all add: match_point_def init_component_def)
  have r: "out_right (move_ball (move_paddles gone_right))"
    by (rule right_exit(3))
  have p: "score_player1 (comp (step rnd_half AnimationFrame match_point)) = 15"
    using r z(3) by (simp add: step_frame_score [OF s])
  have la: "list_all (\<lambda>(rnd, i). loop_input i)
     [(rnd_half, AnimationFrame), (rnd_half, KeyDown ''s''), (rnd_half, AnimationFrame)]"
    by simp
  from first_to_fifteen_wins [of match_point gone_right rnd_half] s z(1,2) p
  have w: "winner (comp (step rnd_half AnimationFrame match_point)) = Some ''Player 1''"
    and g: "\<not> gameStarted (comp (step rnd_half AnimationFrame match_point))"
    and n: "running (step rnd_half AnimationFrame match_point) = None"
    and f: "\<forall>ins. list_all (\<lambda>(rnd, i). loop_input i) ins \<longrightarrow>
              run ins (step rnd_half AnimationFrame match_point) =
              step rnd_half AnimationFrame match_point"
    by simp_all
  from f la have e: "run [(rnd_half, AnimationFrame), (rnd_half, KeyDown ''s''), (rnd_half, AnimationFrame)]
     (step rnd_half AnimationFrame match_point) = step rnd_half AnimationFrame match_point"
    by blast
  from s z(1,2) p w g n la e show ?thesis by (intro conjI)
qed

subsection \<open>Pause and resume\<close>

lemma step_escape:
  "running s = Some l \<Longrightarrow> \<not> gamePaused (comp s) \<Longrightarrow>
   step rnd (KeyDown ''Escape'') s =
     \<lparr>comp = (comp s)\<lparr>gamePaused := True, showPauseMenu := True\<rparr>, running = None\<rparr>"
  by (simp add: step_def commit_def Let_def loop_deps_def game_loop_effect_def)

lemma step_resume:
  "suspended s \<Longrightarrow>
   step rnd ClickResume s =
     \<lparr>comp = (comp s)\<lparr>gamePaused := False, showPauseMenu := False\<rparr>, running = Some started\<rparr>"
  by (simp add: step_def commit_def Let_def loop_deps_def game_loop_effect_def suspended_def
      handleResume_def first_update)

lemma suspended_step:
  assumes "suspended s" and "i \<noteq> ClickResume" and "i \<noteq> ClickQuit"
  shows "suspended (step rnd i s)"
    and "score_player1 (comp (step rnd i s)) = score_player1 (comp s)"
    and "score_player2 (comp (step rnd i s)) = score_player2 (comp s)"
  using assms
  by (cases i;
      simp add: step_def commit_def Let_def loop_deps_def game_loop_effect_def suspended_def
        winner_effect_def handleStart_def)+

lemma suspended_run:
  assumes "suspended s" and "list_all (\<lambda>(rnd, i). i \<noteq> ClickResume \<and> i \<noteq> ClickQuit) ins"
  shows "suspended (run ins s) \<and>
         score_player1 (comp (run ins s)) = score_player1 (comp s) \<and>
         score_player2 (comp (run ins s)) = score_player2 (comp s)"
  using assms
proof (induction ins arbitrary: s)
  case Nil
  then show ?case by simp
next
  case (Cons a ins)
  obtain rnd i where a: "a = (rnd, i)" by (cases a)
  from Cons.prems(2) a have i: "i \<noteq> ClickResume" "i \<noteq> ClickQuit"
    and rest: "list_all (\<lambda>(rnd, i). i \<noteq> ClickResume \<and> i \<noteq> ClickQuit) ins"
    by simp_all
  note st = suspended_step [OF Cons.prems(1) i, of rnd]
  from Cons.IH [OF st(1) rest] st(2,3) show ?case
    by (simp add: a)
qed

lemma well_formed_click:
  assumes "well_formed s" and "\<not> loop_input i"
  shows "well_formed (step rnd i s)"
  using assms
  by (cases i;
      simp add: step_def commit_def Let_def loop_deps_def game_loop_effect_def well_formed_def
        winner_effect_def handleStart_def handleResume_def handleQuit_def
        handleStart_sets_score_def split: if_splits)+

lemma well_formed_key:
  assumes "well_formed s"
  shows "well_formed (step rnd (KeyDown k) s)" and "well_formed (step rnd (KeyUp k) s)"
  using assms
  by (auto simp: step_def commit_def Let_def loop_deps_def game_loop_effect_def well_formed_def
      split: option.splits if_splits)

lemma well_formed_frame:
  assumes "well_formed s"
  shows "well_formed (step rnd AnimationFrame s)"
proof (cases "running s")
  case None
  then show ?thesis using assms by (simp add: step_idle)
next
  case (Some l)
  show ?thesis
  proof (cases "list_ex is_score (snd (update rnd l))")
    case False
    then show ?thesis
      using assms Some by (simp add: step_frame_quiet well_formed_def)
  next
    case True
    note r = step_frame_scoring(2) [OF Some True]
    note fl = step_frame_flags [OF Some, of rnd]
    note sc = step_frame_score [OF Some, of rnd]
    from assms Some have g: "gameStarted (comp s)" "\<not> gamePaused (comp s)"
      "winner (comp s) = None"
      by (auto simp: well_formed_def split: if_splits)
    show ?thesis
      unfolding well_formed_def r
      using g True by (auto simp: fl game_loop_effect_def not_le)
  qed
qed

lemma well_formed_step: "well_formed s \<Longrightarrow> well_formed (step rnd i s)"
  by (cases i) (simp_all add: well_formed_click well_formed_key well_formed_frame)

lemma well_formed_run: "well_formed s \<Longrightarrow> well_formed (run ins s)"
  by (induction ins arbitrary: s) (auto simp: well_formed_step)

lemma well_formed_init: "well_formed init_session"
  by (simp add: well_formed_def init_session_def init_component_def)

lemma suspend:
  assumes "well_formed s" and "running s = Some l"
  shows "suspended (step rnd (KeyDown ''Escape'') s)"
    and "comp (step rnd (KeyDown ''Escape'') s) =
           (comp s)\<lparr>gamePaused := True, showPauseMenu := True\<rparr>"
proof -
  from assms have g: "gameStarted (comp s)" "\<not> gamePaused (comp s)" "winner (comp s) = None"
    "score_player1 (comp s) < 15" "score_player2 (comp s) < 15"
    by (auto simp: well_formed_def split: if_splits)
  from g show "suspended (step rnd (KeyDown ''Escape'') s)"
    by (simp add: step_escape [OF assms(2)] suspended_def)
  from g show "comp (step rnd (KeyDown ''Escape'') s) =
           (comp s)\<lparr>gamePaused := True, showPauseMenu := True\<rparr>"
    by (simp add: step_escape [OF assms(2)])
qed

lemma update_w:
  "update rnd (started\<lparr>keys_w := True\<rparr>) = (moved, [])"
proof -
  let ?l = "started\<lparr>keys_w := True\<rparr>"
  have m: "move_paddles ?l = ?l\<lparr>paddle1_y := 8782019273372467 / 2 ^ 45\<rparr>"
    using paddle_up_250 by (simp add: move_paddles_def Let_def started_def)
  have x: "double_of (7042152073579725 / 2 ^ 44 + double_of 0.3) = 7047429729393050 / 2 ^ 44"
    and y: "double_of (5282933469138125 / 2 ^ 44 + double_of 0.3) = 5288211124951450 / 2 ^ 44"
    using flight_x [of 0] flight_y [of 0] by (simp_all add: flight_def started_def)
  have b: "move_ball (move_paddles ?l) = moved"
    unfolding m using x y by (simp add: move_ball_def started_def moved_def)
  have "update rnd ?l =
      ((move_ball (move_paddles ?l))\<lparr>particles := updateParticles (particles ?l)\<rparr>, [])"
    by (rule update_calm; simp only: b;
        simp add: hits_wall_def hits_paddle_def out_left_def out_right_def moved_def
          started_def geometry_defs)
  then show ?thesis
    unfolding b by (simp add: started_def moved_def)
qed

lemma run_opening: "run first_moves init_session = playing_with moved"
proof -
  have 1: "run [(rnd_half, ClickPlay), (rnd_half, ClickPlay)] init_session = playing_with started"
    by (simp only: run_play playing_with_def)
  have 2: "step rnd_half (KeyDown ''w'') (playing_with started) =
      playing_with (started\<lparr>keys_w := True\<rparr>)"
    by (simp add: step_def playing_with_def set_key_def)
  have 3: "step rnd_half AnimationFrame (playing_with (started\<lparr>keys_w := True\<rparr>)) =
      playing_with moved"
    by (simp add: step_frame_quiet [of _ "started\<lparr>keys_w := True\<rparr>"] playing_with_def update_w)
  have fm: "first_moves = [(rnd_half, ClickPlay), (rnd_half, ClickPlay)] @
      [(rnd_half, KeyDown ''w''), (rnd_half, AnimationFrame)]"
    by (simp add: first_moves_def)
  have "run first_moves init_session =
      run [(rnd_half, KeyDown ''w''), (rnd_half, AnimationFrame)]
        (run [(rnd_half, ClickPlay), (rnd_half, ClickPlay)] init_session)"
    unfolding fm by (rule run_append)
  also have "\<dots> = run [(rnd_half, KeyDown ''w''), (rnd_half, AnimationFrame)]
      (playing_with started)"
    by (simp only: 1)
  also have "\<dots> = playing_with moved"
    by (simp only: run.simps 2 3)
  finally show ?thesis .
qed

text \<open>
  The pause button only shows the pause menu (line 400): \<open>gamePaused\<close> stays false and the
  run goes on.
\<close>

lemma pause_button_keeps_loop:
  assumes "running s = Some l" and "gameStarted (comp s)" and "\<not> showPauseMenu (comp s)"
  shows "step rnd ClickPause s = s\<lparr>comp := (comp s)\<lparr>showPauseMenu := True\<rparr>\<rparr>"
  using assms by (simp add: step_def commit_def Let_def loop_deps_def)

text \<open>
  C1 as stated fails: after \<open>first_moves\<close> the run has the variables \<open>moved\<close> (the
  ball at about 400.6, paddle 1 at about 249.6); Escape and then Resume leave a run with
  the variables \<open>started\<close> (the ball at about 400.3, paddle 1 at 250), which differ in
  the ball's position, the position of paddle 1 and the held key.
\<close>

theorem resume_restarts_loop:
  "running (run first_moves init_session) = Some moved \<and>
   gamePaused (comp (run (first_moves @ [(rnd_half, KeyDown ''Escape'')]) init_session)) \<and>
   running (run (first_moves @ [(rnd_half, KeyDown ''Escape'')]) init_session) = None \<and>
   running (run (first_moves @ [(rnd_half, KeyDown ''Escape''), (rnd_half, ClickResume)])
              init_session) = Some started \<and>
   ball_x moved = 7047429729393050 / 2 ^ 44 \<and> ball_x started = 7042152073579725 / 2 ^ 44 \<and>
   paddle1_y moved = 8782019273372467 / 2 ^ 45 \<and> paddle1_y started = 250 \<and>
   keys_w moved \<and> keys_w started = False \<and> started \<noteq> moved"
proof -
  have m: "running (run first_moves init_session) = Some moved"
    by (simp add: run_opening playing_with_def)
  have wf: "well_formed (run first_moves init_session)"
    using well_formed_init by (rule well_formed_run)
  have e: "run (first_moves @ [(rnd_half, KeyDown ''Escape'')]) init_session =
      step rnd_half (KeyDown ''Escape'') (run first_moves init_session)"
    by (rule run_snoc)
  have su: "suspended (run (first_moves @ [(rnd_half, KeyDown ''Escape'')]) init_session)"
    unfolding e using wf m by (rule suspend(1))
  then have p: "gamePaused (comp (run (first_moves @ [(rnd_half, KeyDown ''Escape'')]) init_session))"
    and n: "running (run (first_moves @ [(rnd_half, KeyDown ''Escape'')]) init_session) = None"
    by (simp_all add: suspended_def)
  have "run (first_moves @ [(rnd_half, KeyDown ''Escape''), (rnd_half, ClickResume)]) init_session =
      step rnd_half ClickResume (run (first_moves @ [(rnd_half, KeyDown ''Escape'')]) init_session)"
    using run_snoc [of "first_moves @ [(rnd_half, KeyDown ''Escape'')]" rnd_half ClickResume init_session]
    by simp
  then have r: "running (run (first_moves @ [(rnd_half, KeyDown ''Escape''), (rnd_half, ClickResume)])
              init_session) = Some started"
    by (simp add: step_resume [OF su])
  have v: "ball_x moved = 7047429729393050 / 2 ^ 44" "ball_x started = 7042152073579725 / 2 ^ 44"
    "paddle1_y moved = 8782019273372467 / 2 ^ 45"
    "paddle1_y started = 250" "keys_w moved" "keys_w started = False"
    by (simp_all add: moved_def started_def)
  from v have ne: "started \<noteq> moved" by auto
  from m p n r v ne show ?thesis by (intro conjI)
qed

text \<open>
  C1, amended. Every reachable session is well formed. Escape during play suspends the
  session: it sets \<open>gamePaused\<close> and \<open>showPauseMenu\<close>, and the run of the effect ends,
  its variables discarded. While suspended, frames and key events change nothing, and no
  sequence of inputs without Resume or Quit (opening, changing and closing the settings
  included) starts a run or changes the score. Resume starts a new run with the initial
  values after one frame (\<open>started\<close>): ball at the centre, paddles centred, no particles,
  no key held; nothing is caught up.
\<close>

theorem pause_discards_loop:
  "(\<forall>ins. well_formed (run ins init_session)) \<and>
   (well_formed s \<and> running s = Some l \<longrightarrow>
      suspended (step rnd (KeyDown ''Escape'') s) \<and>
      comp (step rnd (KeyDown ''Escape'') s) =
        (comp s)\<lparr>gamePaused := True, showPauseMenu := True\<rparr>) \<and>
   (suspended s \<and> loop_input i \<longrightarrow> step rnd i s = s) \<and>
   (suspended s \<and> list_all (\<lambda>(rnd, i). i \<noteq> ClickResume \<and> i \<noteq> ClickQuit) ins \<longrightarrow>
      suspended (run ins s) \<and>
      score_player1 (comp (run ins s)) = score_player1 (comp s) \<and>
      score_player2 (comp (run ins s)) = score_player2 (comp s)) \<and>
   (suspended s \<longrightarrow>
      step rnd ClickResume s =
        \<lparr>comp = (comp s)\<lparr>gamePaused := False, showPauseMenu := False\<rparr>,
         running = Some (fst (update rnd init_loop))\<rparr>) \<and>
   fst (update rnd init_loop) = started"
proof (intro conjI impI allI)
  fix ins' show "well_formed (run ins' init_session)"
    using well_formed_init by (rule well_formed_run)
next
  assume a: "well_formed s \<and> running s = Some l"
  then show "suspended (step rnd (KeyDown ''Escape'') s)"
    using suspend(1) by blast
  from a show "comp (step rnd (KeyDown ''Escape'') s) =
        (comp s)\<lparr>gamePaused := True, showPauseMenu := True\<rparr>"
    using suspend(2) by blast
next
  assume "suspended s \<and> loop_input i"
  then show "step rnd i s = s"
    by (simp add: idle_step suspended_def)
next
  assume a: "suspended s \<and> list_all (\<lambda>(rnd, i). i \<noteq> ClickResume \<and> i \<noteq> ClickQuit) ins"
  then have b: "suspended (run ins s) \<and>
      score_player1 (comp (run ins s)) = score_player1 (comp s) \<and>
      score_player2 (comp (run ins s)) = score_player2 (comp s)"
    using suspended_run by blast
  from b show "suspended (run ins s)" by blast
  from b show "score_player1 (comp (run ins s)) = score_player1 (comp s)" by blast
  from b show "score_player2 (comp (run ins s)) = score_player2 (comp s)" by blast
next
  assume "suspended s"
  then show "step rnd ClickResume s =
        \<lparr>comp = (comp s)\<lparr>gamePaused := False, showPauseMenu := False\<rparr>,
         running = Some (fst (update rnd init_loop))\<rparr>"
    by (simp add: step_resume first_update)
next
  show "fst (update rnd init_loop) = started"
    by (simp add: first_update)
qed

theorem pause_discards_loop_witness:
  "well_formed (run first_moves init_session) \<and>
   running (run first_moves init_session) = Some moved \<and>
   suspended (step rnd_half (KeyDown ''Escape'') (run first_moves init_session)) \<and>
   loop_input AnimationFrame \<and>
   step rnd_half AnimationFrame (step rnd_half (KeyDown ''Escape'') (run first_moves init_session)) =
     step rnd_half (KeyDown ''Escape'') (run first_moves init_session) \<and>
   list_all (\<lambda>(rnd, i). i \<noteq> ClickResume \<and> i \<noteq> ClickQuit)
     [(rnd_half, AnimationFrame), (rnd_half, ClickSettings), (rnd_half, SetTheme ''neon''),
      (rnd_half, ClickCloseSettings), (rnd_half, KeyDown ''w'')] \<and>
   suspended (run [(rnd_half, AnimationFrame), (rnd_half, ClickSettings),
                   (rnd_half, SetTheme ''neon''), (rnd_half, ClickCloseSettings),
                   (rnd_half, KeyDown ''w'')]
                (step rnd_half (KeyDown ''Escape'') (run first_moves init_session))) \<and>
   running (step rnd_half ClickResume
              (step rnd_half (KeyDown ''Escape'') (run first_moves init_session))) = Some started"
proof -
  let ?p = "step rnd_half (KeyDown ''Escape'') (run first_moves init_session)"
  let ?ins = "[(rnd_half, AnimationFrame), (rnd_half, ClickSettings),
      (rnd_half, SetTheme ''neon''), (rnd_half, ClickCloseSettings), (rnd_half, KeyDown ''w'')]"
  have m: "running (run first_moves init_session) = Some moved"
    by (simp add: run_opening playing_with_def)
  have la: "list_all (\<lambda>(rnd, i). i \<noteq> ClickResume \<and> i \<noteq> ClickQuit) ?ins"
    by simp
  have li: "loop_input AnimationFrame" by simp
  from pause_discards_loop [of "run first_moves init_session" moved rnd_half AnimationFrame ?ins]
  have wf: "well_formed (run first_moves init_session)"
    by blast
  from pause_discards_loop [of "run first_moves init_session" moved rnd_half AnimationFrame ?ins] wf m
  have su: "suspended ?p"
    by blast
  from pause_discards_loop [of ?p moved rnd_half AnimationFrame ?ins] su li la
  have f: "step rnd_half AnimationFrame ?p = ?p"
    and k: "suspended (run ?ins ?p)"
    and r: "step rnd_half ClickResume ?p =
        \<lparr>comp = (comp ?p)\<lparr>gamePaused := False, showPauseMenu := False\<rparr>,
         running = Some (fst (update rnd_half init_loop))\<rparr>"
    and st: "fst (update rnd_half init_loop) = started"
    by blast+
  from r st have r': "running (step rnd_half ClickResume ?p) = Some started"
    by simp
  from wf m su li f la k r' show ?thesis by (intro conjI)
qed


end
